theory Spec2Isabelle
  imports Complex_Main "HOL-Library.Char_ord" "HOL-Library.List_Lexorder" "HOL-Library.Log_Nat"
    "HOL-Library.Multiset"
begin

text \<open>
  A model of the mining core of the association-rule application: the two frequent
  itemset miners (\<^verbatim>\<open>aprioriAlgorithm\<close>, \<^verbatim>\<open>fpGrowthAlgorithm\<close>), the candidate join
  (\<^verbatim>\<open>generateCandidates\<close>), the rule generator (\<^verbatim>\<open>generateAssociationRules\<close>), the
  basket extraction, the orchestration of a run and of a comparison, and the schema that
  validates the mining parameters.  Each function follows its TypeScript source
  statement by statement; arrays are lists, a \<^verbatim>\<open>Map\<close> is an association list in
  insertion order, and what a function reads from the clock or the database is an
  explicit world.

  An item identifier is a \<open>string\<close>, a list of characters ordered by character code,
  and lists of identifiers are compared lexicographically, as the default
  \<^verbatim>\<open>Array.prototype.sort\<close> compares strings code unit by code unit.
\<close>

section \<open>Numbers\<close>

text \<open>
  A JavaScript number is an IEEE 754 double: here a rational, for a finite value, or one
  of the three special values.  A number that the program receives or counts is the
  rational it denotes; the result of a division or a multiplication is that of the exact
  operation rounded to the nearest double, ties to the even significand, as IEEE
  prescribes: 53 significant bits, exponents from \<open>-1022\<close> to \<open>1023\<close>, gradual
  underflow below \<open>2 powi -1022\<close> and overflow to an infinity from \<open>2 powi 1024\<close> on.
  Negative zero is identified with zero (it compares equal to zero, and only a negative
  operand produces it; the counts the miners divide are never negative).  The counts
  themselves are integers below \<open>2 powi 53\<close>, which the increments of the program
  represent exactly, so they are natural numbers.
\<close>

datatype jsnum = Fin rat | PInf | NInf | NaN

text \<open>The nearest integer, a tie going to the even one.\<close>

definition roundHalfEven :: "rat \<Rightarrow> int" where
  "roundHalfEven x =
     (let f = \<lfloor>x\<rfloor>; d = x - of_int f
      in if d < 1 / 2 then f else if 1 / 2 < d then f + 1 else if even f then f else f + 1)"

text \<open>
  The binary exponent of a positive rational, \<open>2 powi e \<le> x < 2 powi (e + 1)\<close>, from the
  bit lengths of its numerator and denominator.
\<close>

definition floorLog2 :: "rat \<Rightarrow> int" where
  "floorLog2 x =
     (let (p, q) = quotient_of x; k = bitlen p - bitlen q
      in if 2 powi k \<le> x then k else k - 1)"

text \<open>
  The distance between neighbouring doubles at \<open>x\<close>: 52 binary places below its exponent,
  and constant in the subnormal range.
\<close>

definition ulp :: "rat \<Rightarrow> rat" where
  "ulp x = 2 powi (max (floorLog2 \<bar>x\<bar>) (- 1022) - 52)"

definition roundToDouble :: "rat \<Rightarrow> rat" where
  "roundToDouble x = (if x = 0 then 0 else ulp x * of_int (roundHalfEven (x / ulp x)))"

text \<open>The number that an exact result becomes: rounded, and an infinity on overflow.\<close>

definition toNumber :: "rat \<Rightarrow> jsnum" where
  "toNumber x =
     (let r = roundToDouble x
      in if r = 0 then Fin 0
         else if 1024 \<le> floorLog2 \<bar>r\<bar> then (if 0 < r then PInf else NInf)
         else Fin r)"

text \<open>
  \<^verbatim>\<open>a / b\<close>: no exception at a zero divisor, but \<^verbatim>\<open>Infinity\<close> or \<^verbatim>\<open>NaN\<close>.
\<close>

fun jdiv :: "jsnum \<Rightarrow> jsnum \<Rightarrow> jsnum" where
  "jdiv NaN _ = NaN"
| "jdiv _ NaN = NaN"
| "jdiv (Fin a) (Fin b) =
     (if b \<noteq> 0 then toNumber (a / b)
      else if 0 < a then PInf else if a < 0 then NInf else NaN)"
| "jdiv (Fin a) PInf = Fin 0"
| "jdiv (Fin a) NInf = Fin 0"
| "jdiv PInf (Fin b) = (if 0 \<le> b then PInf else NInf)"
| "jdiv NInf (Fin b) = (if 0 \<le> b then NInf else PInf)"
| "jdiv PInf PInf = NaN"
| "jdiv PInf NInf = NaN"
| "jdiv NInf PInf = NaN"
| "jdiv NInf NInf = NaN"

text \<open>\<^verbatim>\<open>Math.ceil\<close>; the ceiling of a double is a double.\<close>

fun jceil :: "jsnum \<Rightarrow> jsnum" where
  "jceil (Fin a) = Fin (of_int \<lceil>a\<rceil>)"
| "jceil x = x"

text \<open>\<^verbatim>\<open>a >= b\<close>: every comparison with \<^verbatim>\<open>NaN\<close> is false.\<close>

fun jge :: "jsnum \<Rightarrow> jsnum \<Rightarrow> bool" where
  "jge NaN _ = False"
| "jge _ NaN = False"
| "jge (Fin a) (Fin b) = (b \<le> a)"
| "jge PInf _ = True"
| "jge _ NInf = True"
| "jge (Fin a) PInf = False"
| "jge NInf (Fin b) = False"
| "jge NInf PInf = False"

definition jle :: "jsnum \<Rightarrow> jsnum \<Rightarrow> bool" where
  "jle a b = jge b a"

definition jlt :: "jsnum \<Rightarrow> jsnum \<Rightarrow> bool" where
  "jlt a b = (jge b a \<and> a \<noteq> b)"

definition isFinite :: "jsnum \<Rightarrow> bool" where
  "isFinite x = (case x of Fin _ \<Rightarrow> True | _ \<Rightarrow> False)"

section \<open>Insertion-ordered counting maps, join and split\<close>

text \<open>
  \<^verbatim>\<open>Map<string, number>\<close> iterates in insertion order, so it is an association list.
  \<^verbatim>\<open>m.set(k, (m.get(k) || 0) + 1)\<close> keeps the position of a key that is already there
  and appends a new key at the end.
\<close>

fun mapIncr :: "'k \<Rightarrow> ('k \<times> nat) list \<Rightarrow> ('k \<times> nat) list" where
  "mapIncr k [] = [(k, 1)]"
| "mapIncr k ((k', c) # m) = (if k = k' then (k', c + 1) # m else (k', c) # mapIncr k m)"

text \<open>\<^verbatim>\<open>xs.join(',')\<close> and \<^verbatim>\<open>s.split(',')\<close>; the split of the empty string is \<^verbatim>\<open>['']\<close>.\<close>

fun joinComma :: "string list \<Rightarrow> string" where
  "joinComma [] = []"
| "joinComma [x] = x"
| "joinComma (x # y # ys) = x @ CHR '','' # joinComma (y # ys)"

fun splitComma :: "string \<Rightarrow> string list" where
  "splitComma [] = [[]]"
| "splitComma (c # cs) =
     (if c = CHR '','' then [] # splitComma cs
      else (case splitComma cs of [] \<Rightarrow> [[c]] | w # ws \<Rightarrow> (c # w) # ws))"

text \<open>\<^verbatim>\<open>candidate.every(item => transaction.includes(item))\<close>\<close>

definition containsAll :: "string list \<Rightarrow> string list \<Rightarrow> bool" where
  "containsAll transaction candidate = list_all (\<lambda>item. item \<in> set transaction) candidate"

text \<open>The number of transactions that contain every item of a list.\<close>

definition basketCount :: "string list list \<Rightarrow> string list \<Rightarrow> nat" where
  "basketCount transactions items = length (filter (\<lambda>t. containsAll t items) transactions)"

section \<open>Data model\<close>

record FrequentItemset =
  itemset :: "string list"
  support :: jsnum
  count' :: int

record AssociationRule =
  antecedent :: "string list"
  consequent :: "string list"
  rule_support :: jsnum
  confidence :: jsnum
  lift :: jsnum

section \<open>The Apriori miner\<close>

text \<open>\<^verbatim>\<open>Math.ceil(minSupport * totalTransactions)\<close>\<close>

definition minSupportCount :: "rat \<Rightarrow> string list list \<Rightarrow> jsnum" where
  "minSupportCount minSupport transactions =
     jceil (toNumber (minSupport * of_nat (length transactions)))"

text \<open>The first loop of both miners: one increment per item occurrence.\<close>

definition itemCounts :: "string list list \<Rightarrow> (string \<times> nat) list" where
  "itemCounts transactions =
     foldl (\<lambda>m transaction. foldl (\<lambda>m item. mapIncr item m) m transaction) [] transactions"

definition mkItemset :: "string list list \<Rightarrow> string list \<Rightarrow> nat \<Rightarrow> FrequentItemset" where
  "mkItemset transactions items c =
     \<lparr>itemset = items,
      support = jdiv (Fin (of_nat c)) (Fin (of_nat (length transactions))),
      count' = int c\<rparr>"

definition frequent1 :: "string list list \<Rightarrow> jsnum \<Rightarrow> FrequentItemset list" where
  "frequent1 transactions msc =
     map (\<lambda>(item, c). mkItemset transactions [item] c)
       (filter (\<lambda>(item, c). jge (Fin (of_nat c)) msc) (itemCounts transactions))"

text \<open>
  An array read \<^verbatim>\<open>a[l]\<close> is \<^verbatim>\<open>undefined\<close> out of range, and
  \<^verbatim>\<open>undefined !== undefined\<close> is false.
\<close>

definition nthOpt :: "'a list \<Rightarrow> nat \<Rightarrow> 'a option" where
  "nthOpt xs l = (if l < length xs then Some (xs ! l) else None)"

definition canCombine :: "string list \<Rightarrow> string list \<Rightarrow> nat \<Rightarrow> bool" where
  "canCombine itemset1 itemset2 k =
     list_all (\<lambda>l. nthOpt itemset1 l = nthOpt itemset2 l) [0..<k - 2]"

text \<open>
  \<^verbatim>\<open>generateCandidates\<close>: the pairs \<open>i < j\<close> in the order of the two loops.  Every
  itemset it is given is a singleton or the result of a split, so it is never empty and
  the read of its last element is in range.
\<close>

definition newCandidate :: "string list \<Rightarrow> string list \<Rightarrow> string list" where
  "newCandidate itemset1 itemset2 = sort (itemset1 @ [last itemset2])"

fun generateCandidates :: "string list list \<Rightarrow> nat \<Rightarrow> string list list" where
  "generateCandidates [] k = []"
| "generateCandidates (x # xs) k =
     concat (map (\<lambda>y. if canCombine (sort x) (sort y) k
                        then [newCandidate (sort x) (sort y)] else []) xs)
     @ generateCandidates xs k"

text \<open>
  \<^verbatim>\<open>generateCandidates\<close> sorts the arrays it is given in place, and
  \<^verbatim>\<open>frequentItemsets.map(f => f.itemset)\<close> passes the very arrays of the result
  records.  With two or more itemsets every one of them is sorted (index 0 as
  \<^verbatim>\<open>itemset1\<close>, every later index as \<^verbatim>\<open>itemset2\<close>); with fewer the loop body
  never runs.  The itemsets of level 1 are singletons, which sorting leaves as they are;
  those of a later level are sorted by the call that joins them into the next level's
  candidates (the last such call is made with \<open>k = 4\<close>, just before the loop ends).
\<close>

definition sortedInPlace :: "FrequentItemset list \<Rightarrow> FrequentItemset list" where
  "sortedInPlace fs =
     (if 2 \<le> length fs then map (\<lambda>f. f\<lparr>itemset := sort (itemset f)\<rparr>) fs else fs)"

text \<open>
  The counting pass of one level: for each transaction, for each candidate it contains,
  one increment of the candidate's joined key.
\<close>

definition candidateCounts :: "string list list \<Rightarrow> string list list \<Rightarrow> (string \<times> nat) list" where
  "candidateCounts transactions candidateItemsets =
     foldl (\<lambda>m transaction.
              foldl (\<lambda>m candidate.
                       if containsAll transaction candidate
                       then mapIncr (joinComma (sort candidate)) m else m)
                m candidateItemsets)
       [] transactions"

definition kFrequentItemsets ::
  "string list list \<Rightarrow> jsnum \<Rightarrow> string list list \<Rightarrow> FrequentItemset list" where
  "kFrequentItemsets transactions msc candidateItemsets =
     map (\<lambda>(key, c). mkItemset transactions (splitComma key) c)
       (filter (\<lambda>(key, c). jge (Fin (of_nat c)) msc) (candidateCounts transactions candidateItemsets))"

function aprioriLoop ::
  "string list list \<Rightarrow> jsnum \<Rightarrow> nat \<Rightarrow> string list list \<Rightarrow> FrequentItemset list
     \<Rightarrow> FrequentItemset list" where
  "aprioriLoop transactions msc k candidateItemsets frequentItemsets =
     (if candidateItemsets \<noteq> [] \<and> k \<le> 3 then
        let kFrequent = kFrequentItemsets transactions msc candidateItemsets
        in aprioriLoop transactions msc (k + 1)
             (generateCandidates (map itemset kFrequent) (k + 1))
             (frequentItemsets @ sortedInPlace kFrequent)
      else frequentItemsets)"
  by pat_completeness auto
termination
  by (relation "measure (\<lambda>(transactions, msc, k, c, f). 4 - k)") auto

declare aprioriLoop.simps [simp del]

definition aprioriAlgorithm :: "string list list \<Rightarrow> rat \<Rightarrow> FrequentItemset list" where
  "aprioriAlgorithm transactions minSupport =
     (let msc = minSupportCount minSupport transactions;
          frequentItemsets = frequent1 transactions msc
      in aprioriLoop transactions msc 2
           (generateCandidates (map itemset frequentItemsets) 2) frequentItemsets)"

section \<open>The frequency-ordered miner\<close>

text \<open>
  \<^verbatim>\<open>sort((a, b) => b[1] - a[1])\<close> is a stable sort by descending count; the filter
  follows it.
\<close>

definition sortedItems :: "string list list \<Rightarrow> jsnum \<Rightarrow> (string \<times> nat) list" where
  "sortedItems transactions msc =
     filter (\<lambda>(item, c). jge (Fin (of_nat c)) msc)
       (sort_key (\<lambda>(item, c). - int c) (itemCounts transactions))"

fun fpPairs :: "string list list \<Rightarrow> jsnum \<Rightarrow> string list \<Rightarrow> FrequentItemset list" where
  "fpPairs transactions msc [] = []"
| "fpPairs transactions msc (x # xs) =
     concat (map (\<lambda>y. if jge (Fin (of_nat (basketCount transactions [x, y]))) msc
                        then [mkItemset transactions (sort [x, y])
                                (basketCount transactions [x, y])]
                        else []) xs)
     @ fpPairs transactions msc xs"

definition fpGrowthAlgorithm :: "string list list \<Rightarrow> rat \<Rightarrow> FrequentItemset list" where
  "fpGrowthAlgorithm transactions minSupport =
     (let msc = minSupportCount minSupport transactions;
          sorted = sortedItems transactions msc
      in map (\<lambda>(item, c). mkItemset transactions [item] c) sorted
         @ fpPairs transactions msc (map fst sorted))"

section \<open>The rule generator\<close>

text \<open>
  \<^verbatim>\<open>(i >> j) & 1\<close>: the shift works on the 32-bit value of \<open>i\<close> and takes the
  shift count modulo 32.  The loop counter itself is an exact natural number.
\<close>

definition bitSet :: "nat \<Rightarrow> nat \<Rightarrow> bool" where
  "bitSet i j = odd ((i mod 4294967296) div 2 ^ (j mod 32))"

definition antecedentOf :: "string list \<Rightarrow> nat \<Rightarrow> string list" where
  "antecedentOf items i = map (\<lambda>j. items ! j) (filter (\<lambda>j. bitSet i j) [0..<length items])"

definition consequentOf :: "string list \<Rightarrow> nat \<Rightarrow> string list" where
  "consequentOf items i = map (\<lambda>j. items ! j) (filter (\<lambda>j. \<not> bitSet i j) [0..<length items])"

text \<open>The values of the loop counter: \<^verbatim>\<open>for (i = 1; i < Math.pow(2, n) - 1; i++)\<close>.\<close>

definition splitIndices :: "FrequentItemset \<Rightarrow> nat list" where
  "splitIndices f = [1..<2 ^ length (itemset f) - 1]"

definition antecedentSupport :: "string list list \<Rightarrow> string list \<Rightarrow> jsnum" where
  "antecedentSupport transactions ante =
     jdiv (Fin (of_nat (basketCount transactions ante))) (Fin (of_nat (length transactions)))"

text \<open>The body of the inner loop: no rule, or one.\<close>

definition ruleOf ::
  "FrequentItemset \<Rightarrow> rat \<Rightarrow> string list list \<Rightarrow> nat \<Rightarrow> AssociationRule list" where
  "ruleOf f minConfidence transactions i =
     (let ante = antecedentOf (itemset f) i;
          cons = consequentOf (itemset f) i
      in if ante = [] \<or> cons = [] then []
         else let conf = jdiv (support f) (antecedentSupport transactions ante)
              in if jge conf (Fin minConfidence)
                 then [\<lparr>antecedent = sort ante,
                        consequent = sort cons,
                        rule_support = support f,
                        confidence = conf,
                        lift = jdiv conf
                                 (jdiv (Fin (of_int (count' f)))
                                       (Fin (of_nat (length transactions))))\<rparr>]
                 else [])"

definition generateAssociationRules ::
  "FrequentItemset list \<Rightarrow> rat \<Rightarrow> string list list \<Rightarrow> AssociationRule list" where
  "generateAssociationRules frequentItemsets minConfidence transactions =
     concat (map (\<lambda>f. concat (map (ruleOf f minConfidence transactions) (splitIndices f)))
               (filter (\<lambda>f. 2 \<le> length (itemset f)) frequentItemsets))"

section \<open>Extracting the baskets\<close>

text \<open>
  \<^verbatim>\<open>getTransactionData\<close> reads the join of transactions, line items and items, groups
  the item names by transaction in the order the rows arrive (each name pushed
  \<^verbatim>\<open>quantity\<close> times) and passes each group through a \<^verbatim>\<open>Set\<close>, which keeps the
  first occurrence of every name.
\<close>

record joinRow =
  row_transaction_id :: int
  row_item_name :: string
  row_quantity :: int

fun pushItems :: "int \<Rightarrow> string list \<Rightarrow> (int \<times> string list) list \<Rightarrow> (int \<times> string list) list" where
  "pushItems tid xs [] = [(tid, xs)]"
| "pushItems tid xs ((t, ys) # m) =
     (if t = tid then (t, ys @ xs) # m else (t, ys) # pushItems tid xs m)"

definition setToArray :: "string list \<Rightarrow> string list" where
  "setToArray items = foldl (\<lambda>acc x. if x \<in> set acc then acc else acc @ [x]) [] items"

definition getTransactionData :: "joinRow list \<Rightarrow> (int \<times> string list) list" where
  "getTransactionData results =
     map (\<lambda>(transactionId, items). (transactionId, setToArray items))
       (foldl (\<lambda>m r. pushItems (row_transaction_id r)
                         (replicate (nat (row_quantity r)) (row_item_name r)) m)
          [] results)"

section \<open>Orchestration and comparison\<close>

datatype MiningAlgorithm = Apriori | FPGrowth

record ResultParameters =
  min_support :: rat
  min_confidence :: rat

record MiningParameters = ResultParameters +
  algorithm :: MiningAlgorithm

record MiningResult =
  result_id :: nat
  result_algorithm :: MiningAlgorithm
  parameters :: ResultParameters
  frequent_itemsets :: "FrequentItemset list"
  association_rules :: "AssociationRule list"
  execution_time_ms :: int
  created_by :: int
  created_at :: int

record ComparisonMetrics =
  execution_time_difference :: int
  itemsets_count_difference :: int
  rules_count_difference :: int
  faster_algorithm :: MiningAlgorithm

record MiningComparison =
  apriori_result :: MiningResult
  fp_growth_result :: MiningResult
  comparison_metrics :: ComparisonMetrics

text \<open>
  What a run reads and writes besides its arguments: the clock (\<open>clock w n\<close> is the
  \<open>n\<close>-th reading of \<^verbatim>\<open>Date.now()\<close>), the joined rows of the database, and the table
  of stored results with its serial key and the database's own timestamp.  The store is
  modelled as one that does not fail; the handlers only rethrow what it raises.
\<close>

record world =
  clock :: "nat \<Rightarrow> int"
  reads :: nat
  join_rows :: "joinRow list"
  mining_results :: "MiningResult list"
  next_id :: nat
  db_now :: int

definition dateNow :: "world \<Rightarrow> int \<times> world" where
  "dateNow w = (clock w (reads w), w\<lparr>reads := reads w + 1\<rparr>)"

definition insertMiningResult ::
  "MiningAlgorithm \<Rightarrow> ResultParameters \<Rightarrow> FrequentItemset list \<Rightarrow> AssociationRule list
     \<Rightarrow> int \<Rightarrow> int \<Rightarrow> world \<Rightarrow> MiningResult \<times> world" where
  "insertMiningResult alg ps fis rules executionTime userId w =
     (let saved = \<lparr>result_id = next_id w, result_algorithm = alg, parameters = ps,
                    frequent_itemsets = fis, association_rules = rules,
                    execution_time_ms = executionTime, created_by = userId,
                    created_at = db_now w\<rparr>
      in (saved, w\<lparr>mining_results := mining_results w @ [saved], next_id := next_id w + 1\<rparr>))"

definition runMining ::
  "MiningAlgorithm \<Rightarrow> (string list list \<Rightarrow> rat \<Rightarrow> FrequentItemset list)
     \<Rightarrow> MiningParameters \<Rightarrow> int \<Rightarrow> world \<Rightarrow> MiningResult \<times> world" where
  "runMining alg miner ps userId w =
     (let (startTime, w1) = dateNow w;
          transactions = map snd (getTransactionData (join_rows w1));
          frequentItemsets = miner transactions (min_support ps);
          associationRules =
            generateAssociationRules frequentItemsets (min_confidence ps) transactions;
          (endTime, w2) = dateNow w1;
          executionTime = endTime - startTime;
          (savedResult, w3) =
            insertMiningResult alg
              \<lparr>min_support = min_support ps, min_confidence = min_confidence ps\<rparr>
              frequentItemsets associationRules executionTime userId w2
      in (\<lparr>result_id = result_id savedResult, result_algorithm = alg,
            parameters = \<lparr>min_support = min_support ps, min_confidence = min_confidence ps\<rparr>,
            frequent_itemsets = frequentItemsets, association_rules = associationRules,
            execution_time_ms = executionTime, created_by = userId,
            created_at = created_at savedResult\<rparr>, w3))"

definition runAprioriMining :: "MiningParameters \<Rightarrow> int \<Rightarrow> world \<Rightarrow> MiningResult \<times> world" where
  "runAprioriMining = runMining Apriori aprioriAlgorithm"

definition runFPGrowthMining :: "MiningParameters \<Rightarrow> int \<Rightarrow> world \<Rightarrow> MiningResult \<times> world" where
  "runFPGrowthMining = runMining FPGrowth fpGrowthAlgorithm"

definition compareMiningResults ::
  "MiningParameters \<Rightarrow> int \<Rightarrow> world \<Rightarrow> MiningComparison \<times> world" where
  "compareMiningResults ps userId w =
     (let (aprioriResult, w1) = runAprioriMining ps userId w;
          (fpGrowthResult, w2) = runFPGrowthMining ps userId w1;
          executionTimeDiff =
            execution_time_ms fpGrowthResult - execution_time_ms aprioriResult;
          itemsetsCountDiff =
            int (length (frequent_itemsets fpGrowthResult))
              - int (length (frequent_itemsets aprioriResult));
          rulesCountDiff =
            int (length (association_rules fpGrowthResult))
              - int (length (association_rules aprioriResult));
          fasterAlgorithm =
            (if execution_time_ms aprioriResult < execution_time_ms fpGrowthResult
             then Apriori else FPGrowth)
      in (\<lparr>apriori_result = aprioriResult, fp_growth_result = fpGrowthResult,
            comparison_metrics =
              \<lparr>execution_time_difference = executionTimeDiff,
               itemsets_count_difference = itemsetsCountDiff,
               rules_count_difference = rulesCountDiff,
               faster_algorithm = fasterAlgorithm\<rparr>\<rparr>, w2))"

section \<open>The validation boundary\<close>

text \<open>
  \<^verbatim>\<open>miningParametersSchema\<close> is
  \<^verbatim>\<open>{min_support: z.number().min(0).max(1), min_confidence: z.number().min(0).max(1),
  algorithm: z.enum(['apriori', 'fp_growth'])}\<close>.  \<^verbatim>\<open>z.number()\<close> refuses \<^verbatim>\<open>NaN\<close>;
  \<^verbatim>\<open>min\<close> and \<^verbatim>\<open>max\<close> are inclusive bounds.  A procedure of the router parses its
  input with the schema and calls its handler only with a parsed value.
\<close>

record RawMiningParameters =
  raw_min_support :: jsnum
  raw_min_confidence :: jsnum
  raw_algorithm :: string

datatype error = ValidationError

definition zNumberMinMax :: "rat \<Rightarrow> rat \<Rightarrow> jsnum \<Rightarrow> rat option" where
  "zNumberMinMax lo hi v =
     (case v of
        Fin x \<Rightarrow> if jge v (Fin lo) \<and> jle v (Fin hi) then Some x else None
      | _ \<Rightarrow> None)"

definition miningAlgorithmSchema :: "string \<Rightarrow> MiningAlgorithm option" where
  "miningAlgorithmSchema s =
     (if s = ''apriori'' then Some Apriori
      else if s = ''fp_growth'' then Some FPGrowth else None)"

definition miningParametersSchema :: "RawMiningParameters \<Rightarrow> error + MiningParameters" where
  "miningParametersSchema raw =
     (case (zNumberMinMax 0 1 (raw_min_support raw),
            zNumberMinMax 0 1 (raw_min_confidence raw),
            miningAlgorithmSchema (raw_algorithm raw)) of
        (Some s, Some c, Some a) \<Rightarrow>
          Inr \<lparr>min_support = s, min_confidence = c, algorithm = a\<rparr>
      | _ \<Rightarrow> Inl ValidationError)"

definition procedure ::
  "(MiningParameters \<Rightarrow> int \<Rightarrow> world \<Rightarrow> 'r \<times> world) \<Rightarrow> RawMiningParameters \<Rightarrow> int \<Rightarrow> world
     \<Rightarrow> (error + 'r) \<times> world" where
  "procedure handler raw userId w =
     (case miningParametersSchema raw of
        Inl e \<Rightarrow> (Inl e, w)
      | Inr input \<Rightarrow> (let (r, w') = handler input userId w in (Inr r, w')))"

definition runAprioriMiningProcedure where
  "runAprioriMiningProcedure = procedure runAprioriMining"

definition runFPGrowthMiningProcedure where
  "runFPGrowthMiningProcedure = procedure runFPGrowthMining"

definition compareMiningResultsProcedure where
  "compareMiningResultsProcedure = procedure compareMiningResults"

section \<open>Predicates used in the statements\<close>

text \<open>The two readings of the parameter range: \<open>(0, 1]\<close> and \<open>[0, 1]\<close>.\<close>

definition inHalfOpenUnit :: "jsnum \<Rightarrow> bool" where
  "inHalfOpenUnit v = (jlt (Fin 0) v \<and> jle v (Fin 1))"

definition inClosedUnit :: "jsnum \<Rightarrow> bool" where
  "inClosedUnit v = (jge v (Fin 0) \<and> jle v (Fin 1))"

text \<open>No item identifier of any basket contains a comma.\<close>

definition commaFree :: "string list list \<Rightarrow> bool" where
  "commaFree transactions = list_all (list_all (\<lambda>item. CHR '','' \<notin> set item)) transactions"

text \<open>
  Two shapes of a mined itemset.  \<open>supported\<close>: some basket contains all of its members.
  \<open>memberwise\<close>: it has at most two members and each of them occurs in some basket.
\<close>

definition supported :: "string list list \<Rightarrow> FrequentItemset \<Rightarrow> bool" where
  "supported ts f = (\<exists>t \<in> set ts. set (itemset f) \<subseteq> set t)"

definition memberwise :: "string list list \<Rightarrow> FrequentItemset \<Rightarrow> bool" where
  "memberwise ts f =
     (length (itemset f) \<le> 2 \<and> (\<forall>x \<in> set (itemset f). \<exists>t \<in> set ts. x \<in> set t))"

section \<open>Notions used in the proofs\<close>

text \<open>
  A run of increments from a given map, and the count a map holds for a key (0 when the
  key is absent).
\<close>

definition incrAll :: "('k \<times> nat) list \<Rightarrow> 'k list \<Rightarrow> ('k \<times> nat) list" where
  "incrAll m ks = foldl (\<lambda>m k. mapIncr k m) m ks"

definition valueOf :: "('k \<times> nat) list \<Rightarrow> 'k \<Rightarrow> nat" where
  "valueOf m k = (case map_of m k of None \<Rightarrow> 0 | Some c \<Rightarrow> c)"

text \<open>A candidate the key round trip preserves: not empty, sorted, no comma in a member.\<close>

definition plain :: "string list \<Rightarrow> bool" where
  "plain c = (c \<noteq> [] \<and> sorted c \<and> (\<forall>x \<in> set c. CHR '','' \<notin> set x))"

text \<open>The sorted pair of two identifiers, and the lists that are such a pair of two different ones.\<close>

definition pairOf :: "string \<Rightarrow> string \<Rightarrow> string list" where
  "pairOf x y = sort [x, y]"

definition strictPair :: "string list \<Rightarrow> bool" where
  "strictPair p = (case p of [a, b] \<Rightarrow> a < b | _ \<Rightarrow> False)"

text \<open>
  The frequent items in the order of the Apriori miner, and what the three passes of
  its loop add to the result.
\<close>

definition frequentItems :: "string list list \<Rightarrow> rat \<Rightarrow> string list" where
  "frequentItems ts ms =
     map fst (filter (\<lambda>(item, c). jge (Fin (of_nat c)) (minSupportCount ms ts)) (itemCounts ts))"

definition level1 :: "string list list \<Rightarrow> rat \<Rightarrow> FrequentItemset list" where
  "level1 ts ms = frequent1 ts (minSupportCount ms ts)"

definition level2 :: "string list list \<Rightarrow> rat \<Rightarrow> FrequentItemset list" where
  "level2 ts ms =
     kFrequentItemsets ts (minSupportCount ms ts)
       (generateCandidates (map itemset (level1 ts ms)) 2)"

definition level3 :: "string list list \<Rightarrow> rat \<Rightarrow> FrequentItemset list" where
  "level3 ts ms =
     kFrequentItemsets ts (minSupportCount ms ts)
       (generateCandidates (map itemset (level2 ts ms)) 3)"

section \<open>Rounding to a double\<close>

text \<open>
  The rounding is monotone, it keeps the sign, and it leaves a double as it is.  These
  are the facts about the arithmetic that the theorems on the program rest on.
\<close>

lemma roundHalfEven_of_int [simp]: "roundHalfEven (of_int n) = n"
  by (simp add: roundHalfEven_def)

lemma roundHalfEven_bounds: "\<lfloor>x\<rfloor> \<le> roundHalfEven x" "roundHalfEven x \<le> \<lfloor>x\<rfloor> + 1"
  by (simp_all add: roundHalfEven_def Let_def)

lemma roundHalfEven_mono:
  assumes "x \<le> y"
  shows "roundHalfEven x \<le> roundHalfEven y"
proof (cases "\<lfloor>x\<rfloor> = \<lfloor>y\<rfloor>")
  case True
  with assms show ?thesis by (auto simp: roundHalfEven_def Let_def)
next
  case False
  with floor_mono [OF assms] have "\<lfloor>x\<rfloor> < \<lfloor>y\<rfloor>" by linarith
  then show ?thesis
    using roundHalfEven_bounds(2) [of x] roundHalfEven_bounds(1) [of y] by linarith
qed

lemma roundHalfEven_minus: "roundHalfEven (- x) = - roundHalfEven x"
proof (cases "x = of_int \<lfloor>x\<rfloor>")
  case True
  then obtain n where "x = of_int n" ..
  then have "- x = of_int (- n)" by simp
  then show ?thesis unfolding \<open>x = of_int n\<close> by (simp only: roundHalfEven_of_int)
next
  case False
  then have c: "\<lceil>x\<rceil> = \<lfloor>x\<rfloor> + 1" by (simp add: ceiling_altdef)
  have f: "\<lfloor>- x\<rfloor> = - \<lfloor>x\<rfloor> - 1" using c by (simp add: ceiling_def)
  have lt: "of_int \<lfloor>x\<rfloor> < x" using False of_int_floor_le [of x] by linarith
  show ?thesis
    unfolding roundHalfEven_def Let_def f using lt by (auto simp: field_simps)
qed

lemma two_powi_less_D: "(2::rat) powi a < 2 powi b \<Longrightarrow> a < b"
  using power_int_increasing [of b a "2::rat"] by (cases "a < b") auto

lemma two_powi_mono: "a \<le> b \<Longrightarrow> (2::rat) powi a \<le> 2 powi b"
  by (rule power_int_increasing) simp_all

lemma two_powi_strict_mono: "a < b \<Longrightarrow> (2::rat) powi a < 2 powi b"
  by (rule power_int_strict_increasing) simp_all

lemma floorLog2_bounds:
  assumes "0 < x"
  shows "2 powi floorLog2 x \<le> x" and "x < 2 powi (floorLog2 x + 1)"
proof -
  obtain p q where pq: "quotient_of x = (p, q)" by (cases "quotient_of x")
  then have q: "0 < q" and x: "x = of_int p / of_int q"
    using quotient_of_denom_pos quotient_of_div by auto
  with assms have p: "0 < p" by (simp add: zero_less_divide_iff)
  define bp bq where "bp = bitlen p" and "bq = bitlen q"
  have b1: "1 \<le> bp" "1 \<le> bq" using p q by (auto simp: bp_def bq_def bitlen_alt_def)
  from bitlen_bounds [OF p] have "2 ^ nat (bp - 1) \<le> p" "p < 2 ^ nat bp"
    by (auto simp: bp_def)
  then have "(of_int (2 ^ nat (bp - 1)) :: rat) \<le> of_int p" "(of_int p :: rat) < of_int (2 ^ nat bp)"
    by (simp_all only: of_int_le_iff of_int_less_iff)
  then have P: "(2::rat) powi (bp - 1) \<le> of_int p" "of_int p < (2::rat) powi bp"
    using b1 by (simp_all add: power_int_def)
  from bitlen_bounds [OF q] have "2 ^ nat (bq - 1) \<le> q" "q < 2 ^ nat bq"
    by (auto simp: bq_def)
  then have "(of_int (2 ^ nat (bq - 1)) :: rat) \<le> of_int q" "(of_int q :: rat) < of_int (2 ^ nat bq)"
    by (simp_all only: of_int_le_iff of_int_less_iff)
  then have Q: "(2::rat) powi (bq - 1) \<le> of_int q" "of_int q < (2::rat) powi bq"
    using b1 by (simp_all add: power_int_def)
  have qpos: "(0::rat) < of_int q" using q by simp
  have "(2::rat) powi (bp - 1) / 2 powi bq < of_int p / of_int q"
    by (rule frac_less2) (use P Q qpos in auto)
  moreover have "(2::rat) powi (bp - bq - 1) = 2 powi (bp - 1) / 2 powi bq"
    using power_int_diff [of "2::rat" "bp - 1" bq] by (simp add: algebra_simps)
  ultimately have lo: "(2::rat) powi (bp - bq - 1) < x"
    unfolding x by simp
  have "of_int p / of_int q < (2::rat) powi bp / 2 powi (bq - 1)"
    by (rule frac_less) (use P Q p in auto)
  moreover have "(2::rat) powi (bp - bq + 1) = 2 powi bp / 2 powi (bq - 1)"
    using power_int_diff [of "2::rat" bp "bq - 1"] by (simp add: algebra_simps)
  ultimately have hi: "x < (2::rat) powi (bp - bq + 1)"
    unfolding x by simp
  have fl: "floorLog2 x = (if 2 powi (bp - bq) \<le> x then bp - bq else bp - bq - 1)"
    by (simp add: floorLog2_def pq bp_def bq_def Let_def)
  show "2 powi floorLog2 x \<le> x" using lo by (simp add: fl)
  show "x < 2 powi (floorLog2 x + 1)" using hi by (auto simp add: fl)
qed

lemma floorLog2_unique:
  assumes "2 powi e \<le> x" and "x < 2 powi (e + 1)"
  shows "floorLog2 x = e"
proof -
  have pos: "0 < x" using assms(1) by (rule less_le_trans [rotated]) simp
  note b = floorLog2_bounds [OF pos]
  have "(2::rat) powi e < 2 powi (floorLog2 x + 1)" using assms(1) b(2) by linarith
  then have "e < floorLog2 x + 1" by (rule two_powi_less_D)
  moreover have "(2::rat) powi floorLog2 x < 2 powi (e + 1)" using assms(2) b(1) by linarith
  then have "floorLog2 x < e + 1" by (rule two_powi_less_D)
  ultimately show ?thesis by linarith
qed

lemma floorLog2_mono:
  assumes "0 < x" and "x \<le> y"
  shows "floorLog2 x \<le> floorLog2 y"
proof -
  have "0 < y" using assms by linarith
  have "(2::rat) powi floorLog2 x < 2 powi (floorLog2 y + 1)"
    using floorLog2_bounds(1) [OF assms(1)] floorLog2_bounds(2) [OF \<open>0 < y\<close>] assms(2) by linarith
  then have "floorLog2 x < floorLog2 y + 1" by (rule two_powi_less_D)
  then show ?thesis by linarith
qed

lemma floorLog2_ge:
  assumes "0 < x" and "2 powi e \<le> x"
  shows "e \<le> floorLog2 x"
proof -
  have "(2::rat) powi e < 2 powi (floorLog2 x + 1)"
    using assms(2) floorLog2_bounds(2) [OF assms(1)] by linarith
  then have "e < floorLog2 x + 1" by (rule two_powi_less_D)
  then show ?thesis by linarith
qed

lemma floorLog2_le:
  assumes "0 < x" and "x < 2 powi (e + 1)"
  shows "floorLog2 x \<le> e"
proof -
  have "(2::rat) powi floorLog2 x < 2 powi (e + 1)"
    using assms(2) floorLog2_bounds(1) [OF assms(1)] by linarith
  then have "floorLog2 x < e + 1" by (rule two_powi_less_D)
  then show ?thesis by linarith
qed

lemma ulp_pos [simp]: "0 < ulp x"
  by (simp add: ulp_def)

lemma ulp_nonneg [simp]: "0 \<le> ulp x"
  by (simp add: ulp_def)

lemma ulp_neq_0 [simp]: "ulp x \<noteq> 0"
  by (simp add: ulp_def)

lemma ulp_minus [simp]: "ulp (- x) = ulp x"
  by (simp add: ulp_def)

lemma roundToDouble_0 [simp]: "roundToDouble 0 = 0"
  by (simp add: roundToDouble_def)

lemma roundToDouble_minus: "roundToDouble (- x) = - roundToDouble x"
  by (simp add: roundToDouble_def roundHalfEven_minus)

lemma roundToDouble_nonneg:
  assumes "0 \<le> x"
  shows "0 \<le> roundToDouble x"
proof -
  have "0 \<le> x / ulp x" using assms by (simp add: zero_le_divide_iff)
  then have "0 \<le> \<lfloor>x / ulp x\<rfloor>" by simp
  then have "0 \<le> roundHalfEven (x / ulp x)" using roundHalfEven_bounds(1) [of "x / ulp x"] by linarith
  then show ?thesis by (simp add: roundToDouble_def)
qed

lemma two_powi_53: "(2::rat) powi (e + 1) / 2 powi (e - 52) = of_int (2 ^ 53)"
proof -
  have "(2::rat) powi (e + 1) / 2 powi (e - 52) = 2 powi ((e + 1) - (e - 52))"
    by (subst power_int_diff) simp_all
  also have "\<dots> = 2 powi 53" by simp
  also have "\<dots> = of_int (2 ^ 53)" by (simp add: power_int_def)
  finally show ?thesis .
qed

lemma two_powi_52: "(2::rat) powi e / 2 powi (e - 52) = of_int (2 ^ 52)"
proof -
  have "(2::rat) powi e / 2 powi (e - 52) = 2 powi (e - (e - 52))"
    by (subst power_int_diff) simp_all
  also have "\<dots> = 2 powi 52" by simp
  also have "\<dots> = of_int (2 ^ 52)" by (simp add: power_int_def)
  finally show ?thesis .
qed

lemma roundToDouble_upper:
  assumes "0 < x"
  shows "roundToDouble x \<le> 2 powi (max (floorLog2 x) (- 1022) + 1)"
proof -
  define e where "e = max (floorLog2 x) (- 1022)"
  have u: "ulp x = 2 powi (e - 52)" using assms by (simp add: ulp_def e_def)
  have "x < 2 powi (floorLog2 x + 1)" by (rule floorLog2_bounds(2) [OF assms])
  also have "\<dots> \<le> 2 powi (e + 1)" by (rule two_powi_mono) (simp add: e_def)
  finally have "x / ulp x < 2 powi (e + 1) / ulp x" by (rule divide_strict_right_mono) simp
  then have "x / ulp x \<le> of_int (2 ^ 53)" unfolding u two_powi_53 by simp
  then have "roundHalfEven (x / ulp x) \<le> roundHalfEven (of_int (2 ^ 53))"
    by (rule roundHalfEven_mono)
  then have "roundHalfEven (x / ulp x) \<le> 2 ^ 53" by (simp only: roundHalfEven_of_int)
  then have "(of_int (roundHalfEven (x / ulp x)) :: rat) \<le> of_int (2 ^ 53)"
    by (simp only: of_int_le_iff)
  then have "ulp x * of_int (roundHalfEven (x / ulp x)) \<le> ulp x * of_int (2 ^ 53)"
    by (simp add: mult_left_mono)
  also have "\<dots> = 2 powi (e + 1)"
    unfolding u using two_powi_53 [of e] by (simp add: field_simps)
  finally show ?thesis using assms by (simp add: roundToDouble_def e_def)
qed

lemma roundToDouble_lower:
  assumes "0 < x" and "- 1022 \<le> floorLog2 x"
  shows "2 powi floorLog2 x \<le> roundToDouble x"
proof -
  define e where "e = floorLog2 x"
  have u: "ulp x = 2 powi (e - 52)" using assms by (simp add: ulp_def e_def max_def)
  have "2 powi e \<le> x" unfolding e_def by (rule floorLog2_bounds(1) [OF assms(1)])
  then have "2 powi e / ulp x \<le> x / ulp x" by (rule divide_right_mono) simp
  then have "of_int (2 ^ 52) \<le> x / ulp x" unfolding u two_powi_52 by simp
  then have "roundHalfEven (of_int (2 ^ 52)) \<le> roundHalfEven (x / ulp x)"
    by (rule roundHalfEven_mono)
  then have "2 ^ 52 \<le> roundHalfEven (x / ulp x)" by (simp only: roundHalfEven_of_int)
  then have "(of_int (2 ^ 52) :: rat) \<le> of_int (roundHalfEven (x / ulp x))"
    by (simp only: of_int_le_iff)
  then have le: "ulp x * of_int (2 ^ 52) \<le> ulp x * of_int (roundHalfEven (x / ulp x))"
    by (simp add: mult_left_mono)
  have "2 powi e = ulp x * of_int (2 ^ 52)"
    unfolding u using two_powi_52 [of e] by (simp add: field_simps)
  also note le
  also have "ulp x * of_int (roundHalfEven (x / ulp x)) = roundToDouble x"
    using assms by (simp add: roundToDouble_def)
  finally show ?thesis unfolding e_def .
qed

lemma roundToDouble_mono_pos:
  assumes "0 < x" and "x \<le> y"
  shows "roundToDouble x \<le> roundToDouble y"
proof -
  have ypos: "0 < y" using assms by linarith
  define ex ey where "ex = max (floorLog2 x) (- 1022)" and "ey = max (floorLog2 y) (- 1022)"
  have le: "ex \<le> ey" using floorLog2_mono [OF assms] by (simp add: ex_def ey_def)
  show ?thesis
  proof (cases "ex = ey")
    case True
    then have u: "ulp x = ulp y" using assms ypos by (simp add: ulp_def ex_def ey_def)
    have "x / ulp y \<le> y / ulp y" using assms(2) by (rule divide_right_mono) simp
    then have "roundHalfEven (x / ulp y) \<le> roundHalfEven (y / ulp y)" by (rule roundHalfEven_mono)
    then have "(of_int (roundHalfEven (x / ulp y)) :: rat) \<le> of_int (roundHalfEven (y / ulp y))"
      by (simp only: of_int_le_iff)
    then have "ulp y * of_int (roundHalfEven (x / ulp y)) \<le> ulp y * of_int (roundHalfEven (y / ulp y))"
      by (simp add: mult_left_mono)
    then show ?thesis using assms ypos by (simp add: roundToDouble_def u)
  next
    case False
    with le have lt: "ex < ey" by simp
    then have ey: "ey = floorLog2 y" and big: "- 1022 \<le> floorLog2 y"
      by (auto simp: ex_def ey_def max_def split: if_splits)
    have "roundToDouble x \<le> 2 powi (ex + 1)"
      unfolding ex_def by (rule roundToDouble_upper [OF assms(1)])
    also have "\<dots> \<le> 2 powi ey" by (rule two_powi_mono) (use lt in simp)
    also have "\<dots> \<le> roundToDouble y" unfolding ey by (rule roundToDouble_lower [OF ypos big])
    finally show ?thesis .
  qed
qed

lemma roundToDouble_mono:
  assumes "x \<le> y"
  shows "roundToDouble x \<le> roundToDouble y"
proof -
  consider "0 < x" | "x \<le> 0" "0 \<le> y" | "y < 0" using assms by linarith
  then show ?thesis
  proof cases
    case 1
    then show ?thesis by (rule roundToDouble_mono_pos [OF _ assms])
  next
    case 2
    have "roundToDouble x = - roundToDouble (- x)" by (simp add: roundToDouble_minus)
    moreover have "0 \<le> roundToDouble (- x)" by (rule roundToDouble_nonneg) (use 2 in simp)
    moreover have "0 \<le> roundToDouble y" by (rule roundToDouble_nonneg) (use 2 in simp)
    ultimately show ?thesis by linarith
  next
    case 3
    have "roundToDouble (- y) \<le> roundToDouble (- x)"
      by (rule roundToDouble_mono_pos) (use 3 assms in simp_all)
    then show ?thesis by (simp add: roundToDouble_minus)
  qed
qed

lemma representable:
  assumes "x / ulp x = of_int k"
  shows "roundToDouble x = x"
proof -
  have "ulp x * of_int (roundHalfEven (x / ulp x)) = ulp x * (x / ulp x)"
    unfolding assms by (simp only: roundHalfEven_of_int)
  also have "\<dots> = x" by simp
  finally show ?thesis by (simp add: roundToDouble_def)
qed

lemma roundToDouble_idem_pos:
  assumes "0 < x"
  shows "roundToDouble (roundToDouble x) = roundToDouble x"
proof -
  define e where "e = max (floorLog2 x) (- 1022)"
  define m where "m = roundHalfEven (x / ulp x)"
  define r where "r = roundToDouble x"
  have u: "ulp x = 2 powi (e - 52)" using assms by (simp add: ulp_def e_def)
  have r: "r = 2 powi (e - 52) * of_int m" using assms by (simp add: r_def roundToDouble_def m_def u)
  have nonneg: "0 \<le> r" unfolding r_def by (rule roundToDouble_nonneg) (use assms in simp)
  have upper: "r \<le> 2 powi (e + 1)" unfolding r_def e_def by (rule roundToDouble_upper [OF assms])
  show ?thesis
  proof (cases "r = 0")
    case True
    then show ?thesis by (simp add: r_def)
  next
    case False
    with nonneg have rpos: "0 < r" by simp
    have abs: "\<bar>r\<bar> = r" using rpos by simp
    show ?thesis
    proof (cases "r = 2 powi (e + 1)")
      case True
      have "floorLog2 r = e + 1"
        by (rule floorLog2_unique) (simp_all add: True two_powi_strict_mono)
      moreover have "- 1022 \<le> e" by (simp add: e_def)
      ultimately have "ulp r = 2 powi (e + 1 - 52)" by (simp add: ulp_def abs max_def)
      then have "r / ulp r = of_int (2 ^ 52)" unfolding True by (simp only: two_powi_52)
      then show ?thesis unfolding r_def [symmetric] by (rule representable)
    next
      case False
      with upper have lt: "r < 2 powi (e + 1)" by simp
      have le: "floorLog2 r \<le> e" by (rule floorLog2_le [OF rpos lt])
      have "max (floorLog2 r) (- 1022) = e"
      proof (cases "- 1022 \<le> floorLog2 x")
        case True
        then have e: "e = floorLog2 x" by (simp add: e_def max_def)
        have "2 powi e \<le> r" unfolding e r_def by (rule roundToDouble_lower [OF assms True])
        then have "e \<le> floorLog2 r" by (rule floorLog2_ge [OF rpos])
        with le True e show ?thesis by (simp add: max_def)
      next
        case False
        then have "e = - 1022" by (simp add: e_def max_def)
        with le show ?thesis by (simp add: max_def)
      qed
      then have "ulp r = 2 powi (e - 52)" by (simp add: ulp_def abs)
      then have "r / ulp r = of_int m" by (simp add: r)
      then show ?thesis unfolding r_def [symmetric] by (rule representable)
    qed
  qed
qed

lemma roundToDouble_idem: "roundToDouble (roundToDouble x) = roundToDouble x"
proof -
  consider "0 < x" | "x = 0" | "x < 0" by linarith
  then show ?thesis
  proof cases
    case 1
    then show ?thesis by (rule roundToDouble_idem_pos)
  next
    case 2
    then show ?thesis by simp
  next
    case 3
    then have "roundToDouble (roundToDouble (- x)) = roundToDouble (- x)"
      by (intro roundToDouble_idem_pos) simp
    then show ?thesis by (simp add: roundToDouble_minus)
  qed
qed

lemma roundToDouble_1 [simp]: "roundToDouble 1 = 1"
  by code_simp

lemma toNumber_0 [simp]: "toNumber 0 = Fin 0"
  by (simp add: toNumber_def)

lemma toNumber_1 [simp]: "toNumber 1 = Fin 1"
  by code_simp

lemma toNumber_2: "toNumber 2 = Fin 2"
  by code_simp

lemma toNumber_half: "toNumber (1 / 2) = Fin (1 / 2)"
  by code_simp

lemma toNumber_not_NaN [simp]: "toNumber x \<noteq> NaN"
  by (simp add: toNumber_def Let_def)

lemma toNumber_Fin: "toNumber x = Fin r \<Longrightarrow> r = roundToDouble x"
  by (auto simp: toNumber_def Let_def split: if_splits)

lemma toNumber_double: "toNumber x = Fin r \<Longrightarrow> roundToDouble r = r"
  using toNumber_Fin [of x r] by (simp add: roundToDouble_idem)

lemma toNumber_above:
  assumes "0 < q" and "roundToDouble q = q" and "q \<le> x"
  shows "toNumber x = PInf \<or> (\<exists>r. toNumber x = Fin r \<and> q \<le> r)"
proof -
  have "q \<le> roundToDouble x" using roundToDouble_mono [OF assms(3)] assms(2) by simp
  with assms(1) show ?thesis by (auto simp: toNumber_def Let_def)
qed

lemma toNumber_below:
  assumes "q < 0" and "roundToDouble q = q" and "x \<le> q"
  shows "toNumber x = NInf \<or> (\<exists>r. toNumber x = Fin r \<and> r \<le> q)"
proof -
  have "roundToDouble x \<le> q" using roundToDouble_mono [OF assms(3)] assms(2) by simp
  with assms(1) show ?thesis by (auto simp: toNumber_def Let_def)
qed

lemma toNumber_unit:
  assumes "0 \<le> x" and "x \<le> 1"
  shows "\<exists>t. toNumber x = Fin t \<and> 0 \<le> t \<and> t \<le> 1"
proof -
  define r where "r = roundToDouble x"
  have r0: "0 \<le> r" unfolding r_def by (rule roundToDouble_nonneg [OF assms(1)])
  have r1: "r \<le> 1" unfolding r_def using roundToDouble_mono [OF assms(2)] by simp
  show ?thesis
  proof (cases "r = 0")
    case True
    then show ?thesis by (simp add: toNumber_def r_def [symmetric])
  next
    case False
    with r0 have pos: "0 < r" by simp
    have "floorLog2 r \<le> 0" by (rule floorLog2_le [OF pos]) (use r1 in simp)
    then have "toNumber x = Fin r" using pos by (simp add: toNumber_def r_def [symmetric])
    with r0 r1 show ?thesis by simp
  qed
qed

text \<open>
  The quotient of a count by the number of baskets: with a count from 1 to the number of
  baskets, and fewer than \<open>2 ^ 53\<close> baskets, it is a finite number above 0 and at most 1.
\<close>

lemma roundToDouble_53: "roundToDouble (1 / 9007199254740992) = 1 / 9007199254740992"
  by code_simp

lemma jdiv_count:
  fixes c n :: nat
  assumes "0 < c" and "c \<le> n" and "n < 2 ^ 53"
  shows "\<exists>q. jdiv (Fin (of_nat c)) (Fin (of_nat n)) = Fin q \<and> 0 < q \<and> q \<le> 1"
proof -
  have n: "0 < n" using assms by linarith
  let ?x = "(of_nat c :: rat) / of_nat n"
  have x1: "?x \<le> 1" using assms n by (simp add: divide_le_eq_1_pos)
  have "(of_nat n :: rat) \<le> of_nat (2 ^ 53)" using assms(3) by (simp only: of_nat_le_iff)
  then have nb: "(of_nat n :: rat) \<le> 9007199254740992" by simp
  have "(1 :: rat) / 9007199254740992 \<le> 1 / of_nat n"
    by (rule divide_left_mono) (use n nb in simp_all)
  also have "\<dots> \<le> ?x" by (rule divide_right_mono) (use assms(1) in simp_all)
  finally have lo: "(1 :: rat) / 9007199254740992 \<le> ?x" .
  have "roundToDouble (1 / 9007199254740992) \<le> roundToDouble ?x"
    by (rule roundToDouble_mono [OF lo])
  then have pos: "0 < roundToDouble ?x" by (simp add: roundToDouble_53)
  from toNumber_unit [of ?x] x1 obtain t where t: "toNumber ?x = Fin t" "0 \<le> t" "t \<le> 1"
    by auto
  from toNumber_Fin [OF t(1)] pos have "0 < t" by simp
  with t n show ?thesis by simp
qed

text \<open>
  The product in the support threshold is rounded before the ceiling is taken: with the
  double nearest to \<open>0.28\<close> and 25 baskets it is \<open>7.000000000000001\<close>, and the threshold
  is 8.
\<close>

lemma minSupportCount_rounded:
  "roundToDouble (28 / 100) = 1261007895663739 / 4503599627370496
   \<and> minSupportCount (1261007895663739 / 4503599627370496) (replicate 25 []) = Fin 8"
  by code_simp
section \<open>Numbers and containment\<close>

lemma jdiv_NaN_right: "jdiv x NaN = NaN"
  by (cases x) simp_all

lemma jge_NaN_right: "jge x NaN = False"
  by (cases x) simp_all

lemma containsAll_set: "containsAll t xs = (set xs \<subseteq> set t)"
  by (auto simp: containsAll_def list_all_iff)

lemma basketCount_cong: "set xs = set ys \<Longrightarrow> basketCount ts xs = basketCount ts ys"
  by (simp add: basketCount_def containsAll_set)

lemma basketCount_le: "basketCount ts xs \<le> length ts"
  by (simp add: basketCount_def)

lemma basketCount_pos: "t \<in> set ts \<Longrightarrow> set xs \<subseteq> set t \<Longrightarrow> 0 < basketCount ts xs"
  by (auto simp: basketCount_def containsAll_set filter_empty_conv)

lemma antecedentSupport_sort: "antecedentSupport ts (sort xs) = antecedentSupport ts xs"
  by (simp add: antecedentSupport_def basketCount_cong [of "sort xs" xs])

section \<open>The rule generator\<close>

text \<open>Unfolding the generator on a concrete input.\<close>

lemmas rule_eval = generateAssociationRules_def ruleOf_def splitIndices_def antecedentOf_def
  consequentOf_def bitSet_def antecedentSupport_def basketCount_def containsAll_def upt_rec
  Let_def

text \<open>
  Whatever the bit test answers, every index goes to exactly one side: the two sides
  of a split are a partition of the itemset's members.
\<close>

lemma mset_map_filter_partition:
  "mset (map f (filter P l)) + mset (map f (filter (\<lambda>x. \<not> P x) l)) = mset (map f l)"
  by (induction l) auto

lemma mset_split: "mset (antecedentOf xs i) + mset (consequentOf xs i) = mset xs"
proof -
  have "mset (antecedentOf xs i) + mset (consequentOf xs i)
          = mset (map (\<lambda>j. xs ! j) [0..<length xs])"
    unfolding antecedentOf_def consequentOf_def by (rule mset_map_filter_partition)
  then show ?thesis by (simp add: map_nth)
qed

lemma antecedent_subset: "set (antecedentOf xs i) \<subseteq> set xs"
  using mset_split [of xs i] by (metis mset_subset_eq_add_left set_mset_mono set_mset_mset)

lemma disjoint_split:
  assumes "distinct xs"
  shows "set (antecedentOf xs i) \<inter> set (consequentOf xs i) = {}"
proof -
  have "mset (antecedentOf xs i @ consequentOf xs i) = mset xs"
    by (simp add: mset_split)
  then have "distinct (antecedentOf xs i @ consequentOf xs i)"
    using assms mset_eq_imp_distinct_iff by blast
  then show ?thesis by simp
qed

lemma ruleOf_cases:
  assumes "r \<in> set (ruleOf f mc ts i)"
  shows "antecedentOf (itemset f) i \<noteq> [] \<and> consequentOf (itemset f) i \<noteq> []
       \<and> jge (jdiv (support f) (antecedentSupport ts (antecedentOf (itemset f) i))) (Fin mc)
       \<and> r = \<lparr>antecedent = sort (antecedentOf (itemset f) i),
              consequent = sort (consequentOf (itemset f) i),
              rule_support = support f,
              confidence = jdiv (support f) (antecedentSupport ts (antecedentOf (itemset f) i)),
              lift = jdiv (jdiv (support f) (antecedentSupport ts (antecedentOf (itemset f) i)))
                       (jdiv (Fin (of_int (count' f))) (Fin (of_nat (length ts))))\<rparr>"
  using assms by (auto simp: ruleOf_def Let_def split: if_splits)

lemma rules_origin:
  assumes "r \<in> set (generateAssociationRules fs mc ts)"
  obtains f i where "f \<in> set fs" "2 \<le> length (itemset f)" "i \<in> set (splitIndices f)"
    "r \<in> set (ruleOf f mc ts i)"
  using assms by (auto simp: generateAssociationRules_def)

text \<open>
  What the generator does with any list of itemsets: each emitted rule comes from one
  input itemset \<open>f\<close>; antecedent and consequent are non-empty and sorted, together
  they are the members of \<open>f\<close>, the rule's support is that of \<open>f\<close>, its confidence is
  \<open>support f / antecedentSupport\<close> and at least the minimum confidence, and its
  lift is \<open>confidence / (count f / totalBaskets)\<close>.  The members are split by position,
  so the two sides are disjoint when the members of \<open>f\<close> are pairwise distinct.
\<close>

lemma generateAssociationRules_sound:
  assumes "r \<in> set (generateAssociationRules fs mc ts)"
  shows "\<exists>f \<in> set fs.
      antecedent r \<noteq> [] \<and> consequent r \<noteq> []
    \<and> (distinct (itemset f) \<longrightarrow> set (antecedent r) \<inter> set (consequent r) = {})
    \<and> sorted (antecedent r) \<and> sorted (consequent r)
    \<and> mset (antecedent r) + mset (consequent r) = mset (itemset f)
    \<and> rule_support r = support f
    \<and> confidence r = jdiv (support f) (antecedentSupport ts (antecedent r))
    \<and> jge (confidence r) (Fin mc)
    \<and> lift r = jdiv (confidence r) (jdiv (Fin (of_int (count' f))) (Fin (of_nat (length ts))))"
proof -
  from assms(1) obtain f i where f: "f \<in> set fs" and r: "r \<in> set (ruleOf f mc ts i)"
    by (rule rules_origin)
  let ?a = "antecedentOf (itemset f) i" and ?c = "consequentOf (itemset f) i"
  note rc = ruleOf_cases [OF r]
  have ante: "antecedent r = sort ?a" and cons: "consequent r = sort ?c"
    using rc by simp_all
  have ne: "antecedent r \<noteq> []" "consequent r \<noteq> []"
    using rc ante cons by (metis length_sort length_0_conv)+
  have dj: "distinct (itemset f) \<longrightarrow> set (antecedent r) \<inter> set (consequent r) = {}"
    using disjoint_split [of "itemset f" i] by (simp add: ante cons)
  have ms: "mset (antecedent r) + mset (consequent r) = mset (itemset f)"
    by (simp add: ante cons mset_split)
  have sup: "rule_support r = support f" using rc by simp
  have conf: "confidence r = jdiv (support f) (antecedentSupport ts (antecedent r))"
    using rc by (simp add: antecedentSupport_sort)
  have ge: "jge (confidence r) (Fin mc)" using rc by simp
  have li: "lift r = jdiv (confidence r)
                       (jdiv (Fin (of_int (count' f))) (Fin (of_nat (length ts))))"
    using rc by simp
  show ?thesis
    using f ne dj ms sup conf ge li by (intro bexI [of _ f]) (simp_all add: ante cons)
qed

section \<open>The lift of a rule\<close>

text \<open>
  The lift is computed by three divisions, each rounded: the support \<open>q\<close> of the
  itemset, the antecedent support \<open>t\<close>, then \<open>(q / t) / q\<close>.  As \<open>t\<close> is at most 1 and
  the rounding is monotone and keeps \<open>q\<close>, the rounded \<open>q / t\<close> is at least \<open>q\<close> in
  size, and the lift is at least 1.
\<close>

lemma lift_bound:
  fixes q mc :: rat and n ac :: nat
  assumes n: "0 < n" and ac: "ac \<le> n"
    and q: "roundToDouble q = q"
    and ge: "jge (jdiv (Fin q) (jdiv (Fin (of_nat ac)) (Fin (of_nat n)))) (Fin mc)"
    and nz: "q \<noteq> 0 \<or> 0 < mc"
  shows "jge (jdiv (jdiv (Fin q) (jdiv (Fin (of_nat ac)) (Fin (of_nat n)))) (Fin q)) (Fin 1)"
proof -
  have "(0 :: rat) \<le> of_nat ac / of_nat n" by simp
  moreover have "(of_nat ac :: rat) / of_nat n \<le> 1" using n ac by (simp add: divide_le_eq_1_pos)
  ultimately obtain t where "toNumber (of_nat ac / of_nat n) = Fin t" and t0: "0 \<le> t"
    and t1: "t \<le> 1"
    using toNumber_unit by blast
  then have as: "jdiv (Fin (of_nat ac)) (Fin (of_nat n)) = Fin t" using n by simp
  consider "q = 0" | "0 < q" "t = 0" | "0 < q" "0 < t" | "q < 0" "t = 0" | "q < 0" "0 < t"
    using t0 by linarith
  then show ?thesis
  proof cases
    case 1
    with nz have "0 < mc" by simp
    with 1 ge show ?thesis unfolding as by (cases "t = 0") simp_all
  next
    case 2
    then show ?thesis unfolding as by simp
  next
    case 3
    have "q \<le> q / t" using 3 t1 by (simp add: le_divide_eq)
    from toNumber_above [OF 3(1) q this]
    show ?thesis
    proof
      assume "toNumber (q / t) = PInf"
      with 3 show ?thesis unfolding as by simp
    next
      assume "\<exists>r. toNumber (q / t) = Fin r \<and> q \<le> r"
      then obtain r where r: "toNumber (q / t) = Fin r" "q \<le> r" by blast
      have "1 \<le> r / q" using 3 r(2) by (simp add: le_divide_eq)
      from toNumber_above [OF zero_less_one roundToDouble_1 this]
      show ?thesis using 3 r(1) unfolding as by auto
    qed
  next
    case 4
    with ge show ?thesis unfolding as by simp
  next
    case 5
    have "q / t \<le> q" using 5 t1 by (simp add: divide_le_eq mult_le_cancel_left)
    from toNumber_below [OF 5(1) q this]
    show ?thesis
    proof
      assume "toNumber (q / t) = NInf"
      with 5 ge show ?thesis unfolding as by simp
    next
      assume "\<exists>r. toNumber (q / t) = Fin r \<and> r \<le> q"
      then obtain r where r: "toNumber (q / t) = Fin r" "r \<le> q" by blast
      have "1 \<le> r / q" using 5 r(2) by (simp add: le_divide_eq)
      from toNumber_above [OF zero_less_one roundToDouble_1 this]
      show ?thesis using 5 r(1) unfolding as by auto
    qed
  qed
qed

text \<open>The 5 baskets on which the divisions do not come out even.\<close>

lemma jdiv_3_5: "jdiv (Fin 3) (Fin 5) = Fin (5404319552844595 / 9007199254740992)"
  by code_simp

lemma jdiv_4_5: "jdiv (Fin 4) (Fin 5) = Fin (3602879701896397 / 4503599627370496)"
  by code_simp

lemma jdiv_conf:
  "jdiv (Fin (5404319552844595 / 9007199254740992)) (Fin (3602879701896397 / 4503599627370496))
     = Fin (6755399441055743 / 9007199254740992)"
  by code_simp

lemma jdiv_lift:
  "jdiv (Fin (6755399441055743 / 9007199254740992)) (Fin (5404319552844595 / 9007199254740992))
     = Fin (5629499534213119 / 4503599627370496)"
  by code_simp

lemma jdiv_conf': 
  "jdiv (Fin (5404319552844595 / 9007199254740992)) (Fin (5404319552844595 / 9007199254740992))
     = Fin 1"
  by code_simp

lemma jdiv_lift':
  "jdiv (Fin 1) (Fin (5404319552844595 / 9007199254740992))
     = Fin (7505999378950827 / 4503599627370496)"
  by code_simp

lemma jdiv_5_4: "jdiv (Fin 5) (Fin 4) = Fin (5 / 4)"
  by code_simp

lemma rules_of_five_baskets:
  "generateAssociationRules
     [\<lparr>itemset = [''a'', ''b''], support = Fin (5404319552844595 / 9007199254740992),
        count' = 3\<rparr>] (1 / 2)
     [[''a'', ''b''], [''a'', ''b''], [''a'', ''b''], [''a''], [''c'']]
   = [\<lparr>antecedent = [''a''], consequent = [''b''],
        rule_support = Fin (5404319552844595 / 9007199254740992),
        confidence = Fin (6755399441055743 / 9007199254740992),
        lift = Fin (5629499534213119 / 4503599627370496)\<rparr>,
      \<lparr>antecedent = [''b''], consequent = [''a''],
        rule_support = Fin (5404319552844595 / 9007199254740992),
        confidence = Fin 1,
        lift = Fin (7505999378950827 / 4503599627370496)\<rparr>]"
  by (simp add: rule_eval jdiv_3_5 jdiv_4_5 jdiv_conf jdiv_lift jdiv_conf' jdiv_lift'
        del: jdiv.simps)

text \<open>
  C10 (amended).  For every non-empty basket list and input itemsets whose support is
  \<open>count / totalBaskets\<close>, a finite number, and not 0 unless the minimum confidence is
  above zero (every count from 1 to the number of baskets gives such a support), every
  emitted rule has a lift of at least 1.  The lift is the rounded quotient of the rounded
  confidence by the rounded support; it is near \<open>totalBaskets / antecedentCount\<close>, the
  reciprocal of the antecedent's support, and in general not equal to it.
\<close>

theorem lift_at_least_one:
  assumes "r \<in> set (generateAssociationRules fs mc ts)"
    and "ts \<noteq> []"
    and "\<forall>f \<in> set fs. support f = jdiv (Fin (of_int (count' f))) (Fin (of_nat (length ts)))
            \<and> isFinite (support f) \<and> (support f \<noteq> Fin 0 \<or> 0 < mc)"
  shows "jge (lift r) (Fin 1)"
proof -
  from assms(1) obtain f i where f: "f \<in> set fs" and r: "r \<in> set (ruleOf f mc ts i)"
    by (rule rules_origin)
  let ?a = "antecedentOf (itemset f) i"
  let ?n = "length ts" and ?ac = "basketCount ts ?a"
  note rc = ruleOf_cases [OF r]
  have sup: "support f = jdiv (Fin (of_int (count' f))) (Fin (of_nat ?n))"
    and fin: "isFinite (support f)" and nz: "support f \<noteq> Fin 0 \<or> 0 < mc"
    using assms(3) f by blast+
  have n: "0 < ?n" using assms(2) by simp
  from fin obtain q where q: "support f = Fin q" by (cases "support f") (simp_all add: isFinite_def)
  have "toNumber (of_int (count' f) / of_nat ?n) = Fin q"
    using sup q n by simp
  then have dbl: "roundToDouble q = q" by (rule toNumber_double)
  have ac: "?ac \<le> ?n" by (rule basketCount_le)
  have ge: "jge (jdiv (Fin q) (jdiv (Fin (of_nat ?ac)) (Fin (of_nat ?n)))) (Fin mc)"
    using rc by (simp add: q antecedentSupport_def)
  have nz': "q \<noteq> 0 \<or> 0 < mc" using nz q by simp
  have l: "lift r = jdiv (jdiv (Fin q) (jdiv (Fin (of_nat ?ac)) (Fin (of_nat ?n)))) (Fin q)"
    using rc sup q by (simp add: antecedentSupport_def)
  show ?thesis unfolding l by (rule lift_bound [OF n ac dbl ge nz'])
qed

theorem lift_at_least_one_witness:
  "\<lparr>antecedent = [''a''], consequent = [''b''],
      rule_support = Fin (5404319552844595 / 9007199254740992),
      confidence = Fin (6755399441055743 / 9007199254740992),
      lift = Fin (5629499534213119 / 4503599627370496)\<rparr>
     \<in> set (generateAssociationRules
              [\<lparr>itemset = [''a'', ''b''], support = Fin (5404319552844595 / 9007199254740992),
                 count' = 3\<rparr>] (1 / 2)
              [[''a'', ''b''], [''a'', ''b''], [''a'', ''b''], [''a''], [''c'']])
   \<and> Fin (5404319552844595 / 9007199254740992)
       = jdiv (Fin (of_int 3))
           (Fin (of_nat (length [[''a'', ''b''], [''a'', ''b''], [''a'', ''b''], [''a''], [''c'']])))
   \<and> jge (Fin (5629499534213119 / 4503599627370496)) (Fin 1)"
proof -
  let ?r = "\<lparr>antecedent = [''a''], consequent = [''b''],
      rule_support = Fin (5404319552844595 / 9007199254740992),
      confidence = Fin (6755399441055743 / 9007199254740992),
      lift = Fin (5629499534213119 / 4503599627370496)\<rparr>"
  let ?fs = "[\<lparr>itemset = [''a'', ''b''], support = Fin (5404319552844595 / 9007199254740992),
                 count' = 3\<rparr>]"
  let ?ts = "[[''a'', ''b''], [''a'', ''b''], [''a'', ''b''], [''a''], [''c'']]"
  have mem: "?r \<in> set (generateAssociationRules ?fs (1 / 2) ?ts)"
    unfolding rules_of_five_baskets by simp
  have ne: "?ts \<noteq> []" by simp
  have s: "Fin (5404319552844595 / 9007199254740992)
             = jdiv (Fin (of_int 3)) (Fin (of_nat (length ?ts)))"
    by (simp add: jdiv_3_5 del: jdiv.simps)
  have sup: "\<forall>f \<in> set ?fs. support f = jdiv (Fin (of_int (count' f))) (Fin (of_nat (length ?ts)))
            \<and> isFinite (support f) \<and> (support f \<noteq> Fin 0 \<or> 0 < (1 / 2 :: rat))"
    by (simp add: jdiv_3_5 isFinite_def del: jdiv.simps)
  have "jge (Fin (5629499534213119 / 4503599627370496)) (Fin 1)"
    using lift_at_least_one [OF mem ne sup] by (simp only: AssociationRule.select_convs)
  with mem s show ?thesis by (intro conjI)
qed

text \<open>
  Two inputs at which the lift is not \<open>totalBaskets / antecedentCount\<close>.  An itemset
  with count 0 has support 0; with a minimum confidence of 0 its rules pass the test,
  and their lift is \<open>0 / 0\<close>, which is not at least 1.  And with 5 baskets, of which 3
  contain the itemset and 4 the antecedent, the confidence is
  \<open>0.7499999999999999\<close> and the lift \<open>1.2499999999999998\<close>, one unit in the last place
  below \<open>5 / 4\<close>.
\<close>

theorem lift_not_reciprocal_antecedent_support:
  "support \<lparr>itemset = [''a'', ''b''], support = Fin 0, count' = 0\<rparr>
     = jdiv (Fin (of_int (count' \<lparr>itemset = [''a'', ''b''], support = Fin 0, count' = 0\<rparr>)))
         (Fin (of_nat (length [[''a''], [''b'']])))
   \<and> generateAssociationRules
        [\<lparr>itemset = [''a'', ''b''], support = Fin 0, count' = 0\<rparr>] 0 [[''a''], [''b'']]
     = [\<lparr>antecedent = [''a''], consequent = [''b''], rule_support = Fin 0,
          confidence = Fin 0, lift = NaN\<rparr>,
        \<lparr>antecedent = [''b''], consequent = [''a''], rule_support = Fin 0,
          confidence = Fin 0, lift = NaN\<rparr>]
   \<and> jdiv (Fin (of_nat (length [[''a''], [''b'']])))
        (Fin (of_nat (basketCount [[''a''], [''b'']] [''a'']))) = Fin 2
   \<and> \<not> jge NaN (Fin 1)
   \<and> Fin (5404319552844595 / 9007199254740992) = jdiv (Fin 3) (Fin 5)
   \<and> \<lparr>antecedent = [''a''], consequent = [''b''],
        rule_support = Fin (5404319552844595 / 9007199254740992),
        confidence = Fin (6755399441055743 / 9007199254740992),
        lift = Fin (5629499534213119 / 4503599627370496)\<rparr>
       \<in> set (generateAssociationRules
                [\<lparr>itemset = [''a'', ''b''], support = Fin (5404319552844595 / 9007199254740992),
                   count' = 3\<rparr>] (1 / 2)
                [[''a'', ''b''], [''a'', ''b''], [''a'', ''b''], [''a''], [''c'']])
   \<and> basketCount [[''a'', ''b''], [''a'', ''b''], [''a'', ''b''], [''a''], [''c'']] [''a''] = 4
   \<and> jdiv (Fin 5) (Fin 4) = Fin (5 / 4)
   \<and> Fin (5629499534213119 / 4503599627370496) \<noteq> Fin (5 / 4)"
proof -
  have zero: "generateAssociationRules
        [\<lparr>itemset = [''a'', ''b''], support = Fin 0, count' = 0\<rparr>] 0 [[''a''], [''b'']]
     = [\<lparr>antecedent = [''a''], consequent = [''b''], rule_support = Fin 0,
          confidence = Fin 0, lift = NaN\<rparr>,
        \<lparr>antecedent = [''b''], consequent = [''a''], rule_support = Fin 0,
          confidence = Fin 0, lift = NaN\<rparr>]"
    by (simp add: rule_eval toNumber_half)
  have two: "jdiv (Fin (of_nat (length [[''a''], [''b'']])))
        (Fin (of_nat (basketCount [[''a''], [''b'']] [''a'']))) = Fin 2"
    by (simp add: basketCount_def containsAll_def toNumber_2)
  have four: "basketCount [[''a'', ''b''], [''a'', ''b''], [''a'', ''b''], [''a''], [''c'']] [''a''] = 4"
    by (simp add: basketCount_def containsAll_def)
  show ?thesis
    unfolding rules_of_five_baskets zero two four jdiv_3_5 jdiv_5_4 by simp
qed
section \<open>The empty basket list\<close>

lemma concat_map_Nil: "(\<And>x. x \<in> set xs \<Longrightarrow> f x = []) \<Longrightarrow> concat (map f xs) = []"
  by (induction xs) auto

text \<open>
  With no baskets the antecedent support is \<open>0 / 0\<close>, the confidence is \<open>NaN\<close>
  whatever the itemset's support, and the comparison with the threshold is false.
\<close>

lemma ruleOf_no_baskets: "ruleOf f mc [] i = []"
  by (simp add: ruleOf_def Let_def antecedentSupport_def basketCount_def jdiv_NaN_right)

lemma aprioriLoop_no_candidates: "aprioriLoop ts msc k [] acc = acc"
  by (subst aprioriLoop.simps) simp

text \<open>
  C7.  On the empty basket list both miners return the empty itemset list, for every
  minimum support, and the rule generator returns the empty rule list, for every minimum
  confidence and whatever itemsets it is given.  The functions of the model are total:
  a division by zero is a value (\<open>NaN\<close> here), never an exception.
\<close>

theorem empty_basket_list_yields_nothing:
  "aprioriAlgorithm [] minSupport = []
   \<and> fpGrowthAlgorithm [] minSupport = []
   \<and> generateAssociationRules frequentItemsets minConfidence [] = []"
proof (intro conjI)
  show "aprioriAlgorithm [] minSupport = []"
    by (simp add: aprioriAlgorithm_def frequent1_def itemCounts_def Let_def
        aprioriLoop_no_candidates)
  show "fpGrowthAlgorithm [] minSupport = []"
    by (simp add: fpGrowthAlgorithm_def sortedItems_def itemCounts_def Let_def)
  show "generateAssociationRules frequentItemsets minConfidence [] = []"
    unfolding generateAssociationRules_def
    by (intro concat_map_Nil) (simp add: ruleOf_no_baskets)
qed

section \<open>The comparison engine\<close>

text \<open>
  C8.  The comparison keeps both results (the Apriori run on the given world, the
  frequency-ordered run on the world the first run leaves), and its metrics are the
  differences \<open>fp_growth - apriori\<close> of execution time, itemset count and rule count;
  the faster algorithm is \<open>apriori\<close> exactly when its time is strictly smaller, and
  \<open>fp_growth\<close> otherwise, so also on a tie.
\<close>

theorem comparison_metrics_of_results:
  "(let c = fst (compareMiningResults ps userId w);
        a = apriori_result c; f = fp_growth_result c; m = comparison_metrics c
    in execution_time_difference m = execution_time_ms f - execution_time_ms a
     \<and> itemsets_count_difference m
         = int (length (frequent_itemsets f)) - int (length (frequent_itemsets a))
     \<and> rules_count_difference m
         = int (length (association_rules f)) - int (length (association_rules a))
     \<and> (faster_algorithm m = Apriori) = (execution_time_ms a < execution_time_ms f)
     \<and> (faster_algorithm m = FPGrowth) = (execution_time_ms f \<le> execution_time_ms a)
     \<and> a = fst (runAprioriMining ps userId w)
     \<and> f = fst (runFPGrowthMining ps userId (snd (runAprioriMining ps userId w)))
     \<and> result_algorithm a = Apriori \<and> result_algorithm f = FPGrowth)"
  by (auto simp: compareMiningResults_def runAprioriMining_def runFPGrowthMining_def
      runMining_def Let_def split_beta)

text \<open>
  A run of the comparison on a clock that gives both miners the same 5 ms: the tie
  goes to \<open>fp_growth\<close>, and both results are stored.
\<close>

lemma comparison_tie_example:
  "(let (c, w') = compareMiningResults
                    \<lparr>min_support = 1 / 2, min_confidence = 1 / 2, algorithm = Apriori\<rparr> 1
                    \<lparr>clock = (\<lambda>n. 5 * int n), reads = 0,
                     join_rows = [\<lparr>row_transaction_id = 1, row_item_name = ''Bread'',
                                   row_quantity = 2\<rparr>],
                     mining_results = [], next_id = 1, db_now = 0\<rparr>
    in execution_time_ms (apriori_result c) = 5
     \<and> execution_time_ms (fp_growth_result c) = 5
     \<and> comparison_metrics c
         = \<lparr>execution_time_difference = 0, itemsets_count_difference = 0,
            rules_count_difference = 0, faster_algorithm = FPGrowth\<rparr>
     \<and> map result_id (mining_results w') = [1, 2]
     \<and> map (\<lambda>f. (itemset f, support f, count' f)) (frequent_itemsets (apriori_result c))
         = [([''Bread''], Fin 1, 1)])"
  by code_simp

section \<open>The validation boundary\<close>

lemma zNumberMinMax_None: "\<not> inClosedUnit v \<Longrightarrow> zNumberMinMax 0 1 v = None"
  by (cases v) (simp_all add: zNumberMinMax_def inClosedUnit_def)

text \<open>
  C5 (amended).  Every parameter value with \<open>min_support\<close> or \<open>min_confidence\<close>
  outside the closed interval \<open>[0, 1]\<close> is rejected by the schema as a validation
  failure, and each of the three mining procedures returns that failure without calling
  its handler: the world is unchanged.
\<close>

theorem schema_rejects_outside_closed_unit:
  assumes "\<not> inClosedUnit (raw_min_support raw) \<or> \<not> inClosedUnit (raw_min_confidence raw)"
  shows "miningParametersSchema raw = Inl ValidationError
       \<and> runAprioriMiningProcedure raw userId w = (Inl ValidationError, w)
       \<and> runFPGrowthMiningProcedure raw userId w = (Inl ValidationError, w)
       \<and> compareMiningResultsProcedure raw userId w = (Inl ValidationError, w)"
proof -
  have "miningParametersSchema raw = Inl ValidationError"
    using assms
    by (auto simp: miningParametersSchema_def zNumberMinMax_None split: option.splits)
  then show ?thesis
    by (simp add: runAprioriMiningProcedure_def runFPGrowthMiningProcedure_def
        compareMiningResultsProcedure_def procedure_def)
qed

theorem schema_rejects_outside_closed_unit_witness:
  "miningParametersSchema
      \<lparr>raw_min_support = Fin (3 / 2), raw_min_confidence = Fin (1 / 2),
       raw_algorithm = ''apriori''\<rparr>
     = Inl ValidationError
   \<and> runAprioriMiningProcedure
      \<lparr>raw_min_support = Fin (3 / 2), raw_min_confidence = Fin (1 / 2),
       raw_algorithm = ''apriori''\<rparr>
      1 \<lparr>clock = (\<lambda>n. 5 * int n), reads = 0, join_rows = [], mining_results = [],
         next_id = 1, db_now = 0\<rparr>
     = (Inl ValidationError,
        \<lparr>clock = (\<lambda>n. 5 * int n), reads = 0, join_rows = [], mining_results = [],
         next_id = 1, db_now = 0\<rparr>)"
  using schema_rejects_outside_closed_unit
    [of "\<lparr>raw_min_support = Fin (3 / 2), raw_min_confidence = Fin (1 / 2),
          raw_algorithm = ''apriori''\<rparr>"
        1 "\<lparr>clock = (\<lambda>n. 5 * int n), reads = 0, join_rows = [], mining_results = [],
         next_id = 1, db_now = 0\<rparr>"]
  by (simp add: inClosedUnit_def jle_def)

text \<open>
  The bound \<^verbatim>\<open>min(0)\<close> is inclusive: the value 0, outside \<open>(0, 1]\<close>, is accepted.
\<close>

theorem schema_accepts_zero:
  "\<not> (\<forall>raw. \<not> inHalfOpenUnit (raw_min_support raw)
              \<or> \<not> inHalfOpenUnit (raw_min_confidence raw)
          \<longrightarrow> miningParametersSchema raw = Inl ValidationError)"
proof
  assume h: "\<forall>raw. \<not> inHalfOpenUnit (raw_min_support raw)
                  \<or> \<not> inHalfOpenUnit (raw_min_confidence raw)
          \<longrightarrow> miningParametersSchema raw = Inl ValidationError"
  have "miningParametersSchema
      \<lparr>raw_min_support = Fin 0, raw_min_confidence = Fin (1 / 2), raw_algorithm = ''apriori''\<rparr>
     = Inr \<lparr>min_support = 0, min_confidence = 1 / 2, algorithm = Apriori\<rparr>"
    by (simp add: miningParametersSchema_def zNumberMinMax_def miningAlgorithmSchema_def
        jle_def)
  moreover have "\<not> inHalfOpenUnit (Fin 0)"
    by (simp add: inHalfOpenUnit_def jlt_def)
  ultimately show False
    using h [rule_format, of "\<lparr>raw_min_support = Fin 0, raw_min_confidence = Fin (1 / 2),
                               raw_algorithm = ''apriori''\<rparr>"]
    by simp
qed

text \<open>The schema's verdict in full: it fails exactly outside \<open>[0, 1]\<close> or on an unknown algorithm.\<close>

lemma schema_verdict:
  "(miningParametersSchema raw = Inl ValidationError)
     = (\<not> inClosedUnit (raw_min_support raw) \<or> \<not> inClosedUnit (raw_min_confidence raw)
        \<or> raw_algorithm raw \<notin> {''apriori'', ''fp_growth''})"
proof -
  have z: "(zNumberMinMax 0 1 v = None) = (\<not> inClosedUnit v)" for v
    by (cases v) (simp_all add: zNumberMinMax_def inClosedUnit_def jle_def)
  have a: "(miningAlgorithmSchema s = None) = (s \<notin> {''apriori'', ''fp_growth''})" for s
    by (simp add: miningAlgorithmSchema_def)
  show ?thesis
    unfolding z [symmetric] a [symmetric]
    by (simp add: miningParametersSchema_def split: option.splits)
qed

section \<open>The one-basket scenario\<close>

lemma apriori_one_basket:
  "aprioriAlgorithm [[''Bread'', ''Milk'', ''Butter'']] (1 / 2) =
    [\<lparr>itemset = [''Bread''], support = Fin 1, count' = 1\<rparr>,
     \<lparr>itemset = [''Milk''], support = Fin 1, count' = 1\<rparr>,
     \<lparr>itemset = [''Butter''], support = Fin 1, count' = 1\<rparr>,
     \<lparr>itemset = [''Bread'', ''Milk''], support = Fin 1, count' = 1\<rparr>,
     \<lparr>itemset = [''Bread'', ''Butter''], support = Fin 1, count' = 1\<rparr>,
     \<lparr>itemset = [''Butter'', ''Milk''], support = Fin 1, count' = 1\<rparr>,
     \<lparr>itemset = [''Bread'', ''Butter'', ''Milk''], support = Fin 1, count' = 1\<rparr>]"
  by code_simp

text \<open>
  C4 (amended).  On the single basket \<open>{Bread, Milk, Butter}\<close> with minimum support
  0.5 the Apriori miner returns the three singletons, the three 2-itemsets and the
  3-itemset \<open>{Bread, Butter, Milk}\<close>, each with support 1 and count 1, and nothing else.
\<close>

theorem apriori_one_basket_result:
  "mset (aprioriAlgorithm [[''Bread'', ''Milk'', ''Butter'']] (1 / 2)) =
    mset (map (\<lambda>items. \<lparr>itemset = items, support = Fin 1, count' = 1\<rparr>)
           [[''Bread''], [''Milk''], [''Butter''],
            [''Bread'', ''Milk''], [''Bread'', ''Butter''], [''Butter'', ''Milk''],
            [''Bread'', ''Butter'', ''Milk'']])"
  by (simp add: apriori_one_basket)

text \<open>The level-3 pass runs too: the result has a seventh itemset, of size 3.\<close>

theorem apriori_one_basket_has_triple:
  "length (aprioriAlgorithm [[''Bread'', ''Milk'', ''Butter'']] (1 / 2)) = 7
   \<and> \<lparr>itemset = [''Bread'', ''Butter'', ''Milk''], support = Fin 1, count' = 1\<rparr>
       \<in> set (aprioriAlgorithm [[''Bread'', ''Milk'', ''Butter'']] (1 / 2))
   \<and> length (filter (\<lambda>f. length (itemset f) \<le> 2)
               (aprioriAlgorithm [[''Bread'', ''Milk'', ''Butter'']] (1 / 2))) = 6"
  by (simp add: apriori_one_basket)

section \<open>Identifiers that contain a comma\<close>

text \<open>
  The counting pass of the Apriori miner keys each candidate by its members joined with
  commas and recovers the itemset by splitting the key at commas.  An identifier that
  itself contains a comma comes back as several members.  The frequency-ordered miner
  keeps the candidate array and is not affected.
\<close>

lemma apriori_comma_example:
  "aprioriAlgorithm [[''Milk'', ''Tea, green'']] (1 / 2) =
    [\<lparr>itemset = [''Milk''], support = Fin 1, count' = 1\<rparr>,
     \<lparr>itemset = [''Tea, green''], support = Fin 1, count' = 1\<rparr>,
     \<lparr>itemset = [''Milk'', ''Tea'', '' green''], support = Fin 1, count' = 1\<rparr>]"
  by code_simp

lemma fpGrowth_comma_example:
  "fpGrowthAlgorithm [[''Milk'', ''Tea, green'']] (1 / 2) =
    [\<lparr>itemset = [''Milk''], support = Fin 1, count' = 1\<rparr>,
     \<lparr>itemset = [''Tea, green''], support = Fin 1, count' = 1\<rparr>,
     \<lparr>itemset = [''Milk'', ''Tea, green''], support = Fin 1, count' = 1\<rparr>]"
  by code_simp

text \<open>
  C1 (the code at the failing input).  For the one basket \<open>{"Milk", "Tea, green"}\<close>
  the Apriori miner returns the itemset \<open>["Milk", "Tea", " green"]\<close> with count 1:
  its members are not in sorted order (\<open>" green"\<close> sorts first), and no basket
  contains them.
\<close>

theorem apriori_comma_itemset_unsorted_uncounted:
  "aprioriAlgorithm [[''Milk'', ''Tea, green'']] (1 / 2) =
    [\<lparr>itemset = [''Milk''], support = Fin 1, count' = 1\<rparr>,
     \<lparr>itemset = [''Tea, green''], support = Fin 1, count' = 1\<rparr>,
     \<lparr>itemset = [''Milk'', ''Tea'', '' green''], support = Fin 1, count' = 1\<rparr>]
   \<and> \<not> sorted [''Milk'', ''Tea'', '' green'']
   \<and> basketCount [[''Milk'', ''Tea, green'']] [''Milk'', ''Tea'', '' green''] = 0"
  by code_simp

text \<open>
  C3 (the code at the failing input).  For the one basket
  \<open>{"Milk", "Salt, pepper, herbs"}\<close> the level-2 pass of the Apriori miner returns an
  itemset of four members.
\<close>

theorem apriori_comma_itemset_of_size_four:
  "aprioriAlgorithm [[''Milk'', ''Salt, pepper, herbs'']] (1 / 2) =
    [\<lparr>itemset = [''Milk''], support = Fin 1, count' = 1\<rparr>,
     \<lparr>itemset = [''Salt, pepper, herbs''], support = Fin 1, count' = 1\<rparr>,
     \<lparr>itemset = [''Milk'', ''Salt'', '' pepper'', '' herbs''], support = Fin 1,
        count' = 1\<rparr>]
   \<and> length [''Milk'', ''Salt'', '' pepper'', '' herbs''] = 4"
  by code_simp

text \<open>
  C9 (the code at the failing input).  For the one basket \<open>{"Milk", "Tea, green"}\<close>
  the frequency-ordered miner returns the pair \<open>["Milk", "Tea, green"]\<close>; the Apriori
  miner returns \<open>["Milk", "Tea", " green"]\<close> in its place, so its itemsets of size at
  most 2 are the two singletons only.
\<close>

theorem miners_differ_on_comma_identifier:
  "filter (\<lambda>f. length (itemset f) \<le> 2)
     (aprioriAlgorithm [[''Milk'', ''Tea, green'']] (1 / 2)) =
    [\<lparr>itemset = [''Milk''], support = Fin 1, count' = 1\<rparr>,
     \<lparr>itemset = [''Tea, green''], support = Fin 1, count' = 1\<rparr>]
   \<and> fpGrowthAlgorithm [[''Milk'', ''Tea, green'']] (1 / 2) =
    [\<lparr>itemset = [''Milk''], support = Fin 1, count' = 1\<rparr>,
     \<lparr>itemset = [''Tea, green''], support = Fin 1, count' = 1\<rparr>,
     \<lparr>itemset = [''Milk'', ''Tea, green''], support = Fin 1, count' = 1\<rparr>]"
  by (simp add: apriori_comma_example fpGrowth_comma_example)

text \<open>
  C6 (the code at the failing input).  For the one basket \<open>{"Milk", "Tea, green"}\<close>,
  minimum support and minimum confidence \<open>0.5\<close>, the Apriori miner returns
  \<open>["Milk", "Tea", " green"]\<close>; no basket contains \<open>"Tea"\<close>, the antecedent support
  of the split \<open>["Tea"] | [" green", "Milk"]\<close> is 0, and the generator, which has no
  test for a zero antecedent support, emits the rule with confidence \<open>Infinity\<close>.
\<close>

theorem infinite_confidence_from_apriori_output:
  "antecedentSupport [[''Milk'', ''Tea, green'']] [''Tea''] = Fin 0
   \<and> \<lparr>antecedent = [''Tea''], consequent = ['' green'', ''Milk''], rule_support = Fin 1,
       confidence = PInf, lift = PInf\<rparr>
       \<in> set (generateAssociationRules
                (aprioriAlgorithm [[''Milk'', ''Tea, green'']] (1 / 2)) (1 / 2)
                [[''Milk'', ''Tea, green'']])
   \<and> \<not> isFinite PInf"
  unfolding apriori_comma_example by (simp add: rule_eval isFinite_def)

lemma apriori_repeated_member_example:
  "aprioriAlgorithm [[''Apple'', ''Apple, Red'']] (1 / 2) =
    [\<lparr>itemset = [''Apple''], support = Fin 1, count' = 1\<rparr>,
     \<lparr>itemset = [''Apple, Red''], support = Fin 1, count' = 1\<rparr>,
     \<lparr>itemset = [''Apple'', ''Apple'', '' Red''], support = Fin 1, count' = 1\<rparr>]"
  by code_simp

lemma fpGrowth_repeated_member_example:
  "fpGrowthAlgorithm [[''Apple'', ''Apple, Red'']] (1 / 2) =
    [\<lparr>itemset = [''Apple''], support = Fin 1, count' = 1\<rparr>,
     \<lparr>itemset = [''Apple, Red''], support = Fin 1, count' = 1\<rparr>,
     \<lparr>itemset = [''Apple'', ''Apple, Red''], support = Fin 1, count' = 1\<rparr>]"
  by code_simp

text \<open>
  C2 (the code at the failing input).  For the one basket \<open>{"Apple", "Apple, Red"}\<close>,
  minimum support and minimum confidence \<open>0.5\<close>, the Apriori miner returns the itemset
  \<open>["Apple", "Apple", " Red"]\<close>, and the generator, which splits the members by
  position, emits from it the rule \<open>["Apple"] \<rightarrow> [" Red", "Apple"]\<close>: the identifier
  \<open>"Apple"\<close> is in the antecedent and in the consequent.  From the itemsets of the
  frequency-ordered miner, over the same basket, the generator emits two rules, each
  with disjoint sides.
\<close>

theorem overlapping_rule_from_apriori_output:
  "\<lparr>antecedent = [''Apple''], consequent = ['' Red'', ''Apple''], rule_support = Fin 1,
      confidence = Fin 1, lift = Fin 1\<rparr>
     \<in> set (generateAssociationRules
              (aprioriAlgorithm [[''Apple'', ''Apple, Red'']] (1 / 2)) (1 / 2)
              [[''Apple'', ''Apple, Red'']])
   \<and> set [''Apple''] \<inter> set ['' Red'', ''Apple''] = {''Apple''}
   \<and> generateAssociationRules
        (fpGrowthAlgorithm [[''Apple'', ''Apple, Red'']] (1 / 2)) (1 / 2)
        [[''Apple'', ''Apple, Red'']]
      = [\<lparr>antecedent = [''Apple''], consequent = [''Apple, Red''], rule_support = Fin 1,
           confidence = Fin 1, lift = Fin 1\<rparr>,
         \<lparr>antecedent = [''Apple, Red''], consequent = [''Apple''], rule_support = Fin 1,
           confidence = Fin 1, lift = Fin 1\<rparr>]"
  unfolding apriori_repeated_member_example fpGrowth_repeated_member_example
  by (simp add: rule_eval)

section \<open>Mined itemsets occur in the baskets\<close>

lemma keys_mapIncr: "fst ` set (mapIncr k m) = insert k (fst ` set m)"
  by (induction k m rule: mapIncr.induct) auto

lemma keys_fold_items:
  "fst ` set (foldl (\<lambda>m item. mapIncr item m) m t) = fst ` set m \<union> set t"
  by (induction t arbitrary: m) (auto simp: keys_mapIncr)

lemma keys_itemCounts_gen:
  "fst ` set (foldl (\<lambda>m transaction. foldl (\<lambda>m item. mapIncr item m) m transaction) m ts)
     = fst ` set m \<union> \<Union> (set ` set ts)"
  by (induction ts arbitrary: m) (auto simp: keys_fold_items)

lemma keys_itemCounts: "fst ` set (itemCounts ts) = \<Union> (set ` set ts)"
  by (simp add: itemCounts_def keys_itemCounts_gen)

lemma keys_fold_candidates:
  "fst ` set (foldl (\<lambda>m candidate. if containsAll t candidate
                       then mapIncr (joinComma (sort candidate)) m else m) m cands)
     = fst ` set m \<union> {joinComma (sort c) |c. c \<in> set cands \<and> containsAll t c}"
  by (induction cands arbitrary: m) (auto simp: keys_mapIncr)

lemma keys_candidateCounts_gen:
  "fst ` set (foldl (\<lambda>m transaction.
              foldl (\<lambda>m candidate.
                       if containsAll transaction candidate
                       then mapIncr (joinComma (sort candidate)) m else m)
                m cands) m ts)
     = fst ` set m \<union> {joinComma (sort c) |c t. c \<in> set cands \<and> t \<in> set ts \<and> containsAll t c}"
proof (induction ts arbitrary: m)
  case Nil
  then show ?case by simp
next
  case (Cons t ts)
  show ?case
    unfolding foldl_Cons Cons.IH keys_fold_candidates by auto
qed

lemma keys_candidateCounts:
  "fst ` set (candidateCounts ts cands)
     = {joinComma (sort c) |c t. c \<in> set cands \<and> t \<in> set ts \<and> containsAll t c}"
  by (simp add: candidateCounts_def keys_candidateCounts_gen)

lemma splitComma_no_comma: "CHR '','' \<notin> set x \<Longrightarrow> splitComma x = [x]"
  by (induction x) auto

lemma splitComma_append:
  "CHR '','' \<notin> set x \<Longrightarrow> splitComma (x @ CHR '','' # rest) = x # splitComma rest"
  by (induction x) auto

lemma split_join:
  "xs \<noteq> [] \<Longrightarrow> \<forall>x \<in> set xs. CHR '','' \<notin> set x \<Longrightarrow> splitComma (joinComma xs) = xs"
proof (induction xs rule: joinComma.induct)
  case 1
  then show ?case by simp
next
  case (2 x)
  then show ?case by (simp add: splitComma_no_comma)
next
  case (3 x y ys)
  then show ?case by (simp add: splitComma_append)
qed

lemma generateCandidates_shape:
  "c \<in> set (generateCandidates xs k) \<Longrightarrow> \<exists>a b. c = newCandidate a b"
  by (induction xs) (auto split: if_splits)

lemma length_newCandidate: "length (newCandidate a b) = Suc (length a)"
  by (simp add: newCandidate_def)

lemma generateCandidates_nonempty:
  assumes "c \<in> set (generateCandidates xs k)"
  shows "c \<noteq> []"
proof -
  from assms obtain a b where "c = newCandidate a b"
    using generateCandidates_shape by blast
  then have "length c = Suc (length a)" by (simp add: length_newCandidate)
  then show ?thesis by auto
qed

lemma commaFree_item: "commaFree ts \<Longrightarrow> t \<in> set ts \<Longrightarrow> x \<in> set t \<Longrightarrow> CHR '','' \<notin> set x"
  by (auto simp: commaFree_def list_all_iff)

lemma frequent1_supported:
  assumes "f \<in> set (frequent1 ts msc)"
  shows "supported ts f"
proof -
  from assms obtain item c where ic: "(item, c) \<in> set (itemCounts ts)"
    and f: "f = mkItemset ts [item] c"
    by (auto simp: frequent1_def)
  from ic have "item \<in> fst ` set (itemCounts ts)" by force
  then obtain t where t: "t \<in> set ts" "item \<in> set t"
    by (auto simp: keys_itemCounts)
  then have "ts \<noteq> []" by auto
  with t f show ?thesis
    by (auto simp: supported_def) (auto simp: mkItemset_def)
qed

lemma kFrequent_supported:
  assumes "f \<in> set (kFrequentItemsets ts msc cands)" and "commaFree ts"
    and "\<forall>c \<in> set cands. c \<noteq> []"
  shows "supported ts f"
proof -
  from assms(1) obtain key n where kn: "(key, n) \<in> set (candidateCounts ts cands)"
    and f: "f = mkItemset ts (splitComma key) n"
    by (auto simp: kFrequentItemsets_def)
  from kn have "key \<in> fst ` set (candidateCounts ts cands)" by force
  then obtain c t where c: "c \<in> set cands" and t: "t \<in> set ts" and ct: "containsAll t c"
    and key: "key = joinComma (sort c)"
    by (auto simp: keys_candidateCounts)
  have sub: "set c \<subseteq> set t" using ct by (simp add: containsAll_set)
  have "\<forall>x \<in> set (sort c). CHR '','' \<notin> set x"
    using sub commaFree_item [OF assms(2) t] by auto
  moreover have "sort c \<noteq> []" using assms(3) c by (metis length_sort length_0_conv)
  ultimately have "splitComma key = sort c" unfolding key by (intro split_join)
  then have "itemset f = sort c" by (simp add: f mkItemset_def)
  moreover have "ts \<noteq> []" using t by auto
  ultimately show ?thesis
    using sub t by (auto simp: supported_def f)
qed

lemma sortedInPlace_supported:
  "f \<in> set (sortedInPlace fs) \<Longrightarrow> \<forall>g \<in> set fs. supported ts g \<Longrightarrow> supported ts f"
  by (auto simp: sortedInPlace_def supported_def split: if_splits)

lemma aprioriLoop_supported:
  "commaFree ts \<Longrightarrow> \<forall>c \<in> set cands. c \<noteq> [] \<Longrightarrow> \<forall>g \<in> set acc. supported ts g
    \<Longrightarrow> f \<in> set (aprioriLoop ts msc k cands acc) \<Longrightarrow> supported ts f"
proof (induction ts msc k cands acc rule: aprioriLoop.induct)
  case (1 ts msc k cands acc)
  show ?case
  proof (cases "cands \<noteq> [] \<and> k \<le> 3")
    case True
    let ?kf = "kFrequentItemsets ts msc cands"
    have kf: "\<forall>g \<in> set ?kf. supported ts g"
      using kFrequent_supported [OF _ "1.prems"(1,2)] by blast
    have acc': "\<forall>g \<in> set (acc @ sortedInPlace ?kf). supported ts g"
      using "1.prems"(3) kf sortedInPlace_supported by auto
    have ne: "\<forall>c \<in> set (generateCandidates (map itemset ?kf) (k + 1)). c \<noteq> []"
      using generateCandidates_nonempty by blast
    have "f \<in> set (aprioriLoop ts msc (k + 1)
             (generateCandidates (map itemset ?kf) (k + 1)) (acc @ sortedInPlace ?kf))"
      using "1.prems"(4) True by (subst (asm) aprioriLoop.simps) (simp add: Let_def)
    with "1.IH" [OF True refl "1.prems"(1) ne acc'] show ?thesis .
  next
    case False
    then have "aprioriLoop ts msc k cands acc = acc"
      by (subst aprioriLoop.simps) auto
    with "1.prems" show ?thesis by auto
  qed
qed

lemma apriori_supported:
  assumes "commaFree ts" and "f \<in> set (aprioriAlgorithm ts ms)"
  shows "supported ts f"
proof -
  let ?msc = "minSupportCount ms ts"
  have "f \<in> set (aprioriLoop ts ?msc 2
      (generateCandidates (map itemset (frequent1 ts ?msc)) 2) (frequent1 ts ?msc))"
    using assms(2) by (simp add: aprioriAlgorithm_def Let_def)
  moreover have "\<forall>c \<in> set (generateCandidates (map itemset (frequent1 ts ?msc)) 2). c \<noteq> []"
    using generateCandidates_nonempty by blast
  moreover have "\<forall>g \<in> set (frequent1 ts ?msc). supported ts g"
    using frequent1_supported by blast
  ultimately show ?thesis
    using aprioriLoop_supported [OF assms(1)] by blast
qed

lemma fpPairs_members:
  "f \<in> set (fpPairs ts msc items) \<Longrightarrow>
     \<exists>x y. x \<in> set items \<and> y \<in> set items
          \<and> f = mkItemset ts (sort [x, y]) (basketCount ts [x, y])"
  by (induction items) (auto split: if_splits)

lemma sortedItems_subset: "set (sortedItems ts msc) \<subseteq> set (itemCounts ts)"
  by (auto simp: sortedItems_def)

lemma item_in_basket: "(item, c) \<in> set (itemCounts ts) \<Longrightarrow> \<exists>t \<in> set ts. item \<in> set t"
proof -
  assume "(item, c) \<in> set (itemCounts ts)"
  then have "item \<in> fst ` set (itemCounts ts)" by force
  then show ?thesis by (auto simp: keys_itemCounts)
qed

lemma fp_memberwise:
  assumes "f \<in> set (fpGrowthAlgorithm ts ms)"
  shows "memberwise ts f"
proof -
  let ?msc = "minSupportCount ms ts"
  let ?s = "sortedItems ts ?msc"
  from assms consider
    (single) item c where "(item, c) \<in> set ?s" "f = mkItemset ts [item] c"
  | (pair) "f \<in> set (fpPairs ts ?msc (map fst ?s))"
    by (auto simp: fpGrowthAlgorithm_def Let_def)
  then show ?thesis
  proof cases
    case single
    then have "(item, c) \<in> set (itemCounts ts)" using sortedItems_subset by blast
    then obtain t where t: "t \<in> set ts" "item \<in> set t" using item_in_basket by blast
    then have "ts \<noteq> []" by auto
    then show ?thesis
      using t single(2) by (auto simp: memberwise_def) (auto simp: mkItemset_def)
  next
    case pair
    then obtain x y where x: "x \<in> set (map fst ?s)" and y: "y \<in> set (map fst ?s)"
      and f: "f = mkItemset ts (sort [x, y]) (basketCount ts [x, y])"
      using fpPairs_members by blast
    from x obtain cx where "(x, cx) \<in> set (itemCounts ts)" using sortedItems_subset by fastforce
    then obtain tx where tx: "tx \<in> set ts" "x \<in> set tx" using item_in_basket by blast
    from y obtain cy where "(y, cy) \<in> set (itemCounts ts)" using sortedItems_subset by fastforce
    then obtain ty where ty: "ty \<in> set ts" "y \<in> set ty" using item_in_basket by blast
    have ne: "ts \<noteq> []" using tx by auto
    have it: "itemset f = sort [x, y]" by (simp add: f mkItemset_def)
    have "set (itemset f) = {x, y}" unfolding it by (simp only: set_sort) simp
    moreover have "length (itemset f) = 2" unfolding it by (simp only: length_sort) simp
    ultimately show ?thesis
      using tx ty ne by (auto simp: memberwise_def f)
  qed
qed

lemma split_safe:
  assumes "supported ts f \<or> memberwise ts f"
    and a: "antecedentOf (itemset f) i \<noteq> []" and c: "consequentOf (itemset f) i \<noteq> []"
  shows "0 < basketCount ts (antecedentOf (itemset f) i)"
  using assms(1)
proof
  assume "supported ts f"
  then obtain t where "t \<in> set ts" "set (itemset f) \<subseteq> set t" by (auto simp: supported_def)
  then show ?thesis using antecedent_subset basketCount_pos by blast
next
  assume m: "memberwise ts f"
  let ?a = "antecedentOf (itemset f) i" and ?c = "consequentOf (itemset f) i"
  have "length ?a + length ?c = length (itemset f)"
    using mset_split [of "itemset f" i] by (metis size_mset size_union)
  moreover have "0 < length ?c" using c by simp
  moreover have "length (itemset f) \<le> 2" using m by (simp add: memberwise_def)
  ultimately have "length ?a \<le> 1" by linarith
  with a obtain z where z: "?a = [z]" by (cases ?a) auto
  then have "z \<in> set (itemset f)" using antecedent_subset [of "itemset f" i] by auto
  then obtain t where "t \<in> set ts" "z \<in> set t" using m by (auto simp: memberwise_def)
  then show ?thesis using basketCount_pos [of t ts "[z]"] z by simp
qed

lemma miner_output_shape:
  assumes "fs = fpGrowthAlgorithm ts ms \<or> (commaFree ts \<and> fs = aprioriAlgorithm ts ms)"
    and "f \<in> set fs"
  shows "supported ts f \<or> memberwise ts f"
  using assms fp_memberwise apriori_supported by auto

lemma antecedentSupport_pos:
  assumes "0 < basketCount ts a" and "length ts < 2 ^ 53"
  shows "\<exists>q. antecedentSupport ts a = Fin q \<and> 0 < q \<and> q \<le> 1"
  unfolding antecedentSupport_def by (rule jdiv_count [OF assms(1) basketCount_le assms(2)])

text \<open>
  Where the defect does not reach, the generator has nothing to skip.  For the itemsets
  the frequency-ordered miner returns, and for those the Apriori miner returns when no
  item identifier contains a comma, over the same basket list, every split with a
  non-empty antecedent and consequent has an antecedent that occurs in some basket; with
  fewer than \<open>2 ^ 53\<close> baskets its antecedent support is a finite number above 0.
\<close>

lemma no_zero_antecedent_support:
  assumes "fs = fpGrowthAlgorithm ts ms \<or> (commaFree ts \<and> fs = aprioriAlgorithm ts ms)"
  shows "(\<forall>f \<in> set fs. \<forall>i.
            antecedentOf (itemset f) i \<noteq> [] \<and> consequentOf (itemset f) i \<noteq> [] \<longrightarrow>
              0 < basketCount ts (antecedentOf (itemset f) i)
            \<and> (length ts < 2 ^ 53 \<longrightarrow>
                 (\<exists>q. antecedentSupport ts (antecedentOf (itemset f) i) = Fin q \<and> 0 < q)))
       \<and> (\<forall>r \<in> set (generateAssociationRules fs mc ts).
            0 < basketCount ts (antecedent r)
            \<and> (length ts < 2 ^ 53 \<longrightarrow> (\<exists>q. antecedentSupport ts (antecedent r) = Fin q \<and> 0 < q)))"
proof (intro conjI ballI allI impI)
  fix f i
  assume f: "f \<in> set fs"
    and ne: "antecedentOf (itemset f) i \<noteq> [] \<and> consequentOf (itemset f) i \<noteq> []"
  note sh = miner_output_shape [OF assms f]
  show pos: "0 < basketCount ts (antecedentOf (itemset f) i)"
    using split_safe sh ne by blast
  assume "length ts < 2 ^ 53"
  from antecedentSupport_pos [OF pos this]
  show "\<exists>q. antecedentSupport ts (antecedentOf (itemset f) i) = Fin q \<and> 0 < q" by blast
next
  fix r
  assume "r \<in> set (generateAssociationRules fs mc ts)"
  then obtain f i where f: "f \<in> set fs" and r: "r \<in> set (ruleOf f mc ts i)"
    by (rule rules_origin)
  note rc = ruleOf_cases [OF r]
  note sh = miner_output_shape [OF assms f]
  let ?a = "antecedentOf (itemset f) i"
  have "0 < basketCount ts ?a"
    using split_safe sh rc by blast
  moreover have "basketCount ts (antecedent r) = basketCount ts ?a"
    using rc by (simp add: basketCount_cong [of "sort ?a" ?a])
  ultimately show pos: "0 < basketCount ts (antecedent r)" by simp
  assume "length ts < 2 ^ 53"
  from antecedentSupport_pos [OF pos this]
  show "\<exists>q. antecedentSupport ts (antecedent r) = Fin q \<and> 0 < q" by blast
qed
section \<open>Counting with an insertion-ordered map\<close>

lemma map_of_mapIncr:
  "map_of (mapIncr k m) = (map_of m)(k \<mapsto> (case map_of m k of None \<Rightarrow> 1 | Some c \<Rightarrow> c + 1))"
  by (induction k m rule: mapIncr.induct) (auto simp: fun_eq_iff)

lemma valueOf_mapIncr: "valueOf (mapIncr k m) k' = valueOf m k' + (if k' = k then 1 else 0)"
  by (simp add: valueOf_def map_of_mapIncr split: option.splits)

lemma distinct_mapIncr: "distinct (map fst m) \<Longrightarrow> distinct (map fst (mapIncr k m))"
  by (induction k m rule: mapIncr.induct) (auto simp: keys_mapIncr)

lemma valueOf_incrAll: "valueOf (incrAll m ks) k = valueOf m k + count_list ks k"
  unfolding incrAll_def
  by (induction ks arbitrary: m) (auto simp: valueOf_mapIncr)

lemma distinct_incrAll: "distinct (map fst m) \<Longrightarrow> distinct (map fst (incrAll m ks))"
  unfolding incrAll_def
  by (induction ks arbitrary: m) (auto simp: distinct_mapIncr)

lemma keys_incrAll: "fst ` set (incrAll m ks) = fst ` set m \<union> set ks"
  unfolding incrAll_def
  by (induction ks arbitrary: m) (auto simp: keys_mapIncr)

lemma incrAll_entry:
  "(k, c) \<in> set (incrAll [] ks) \<longleftrightarrow> (k \<in> set ks \<and> c = count_list ks k)"
proof -
  have d: "distinct (map fst (incrAll [] ks))" by (simp add: distinct_incrAll)
  have v: "valueOf (incrAll [] ks) k = count_list ks k"
    using valueOf_incrAll [of "[]" ks k] by (simp add: valueOf_def)
  show ?thesis
  proof
    assume m: "(k, c) \<in> set (incrAll [] ks)"
    then have "map_of (incrAll [] ks) k = Some c" using d by simp
    then have "c = count_list ks k" using v by (simp add: valueOf_def)
    moreover have "k \<in> set ks" using m keys_incrAll [of "[]" ks] by force
    ultimately show "k \<in> set ks \<and> c = count_list ks k" by simp
  next
    assume a: "k \<in> set ks \<and> c = count_list ks k"
    then have "k \<in> fst ` set (incrAll [] ks)" by (simp add: keys_incrAll)
    then obtain c' where c': "(k, c') \<in> set (incrAll [] ks)" by force
    then have "map_of (incrAll [] ks) k = Some c'" using d by simp
    then have "c' = count_list ks k" using v by (simp add: valueOf_def)
    with a c' show "(k, c) \<in> set (incrAll [] ks)" by simp
  qed
qed

lemma foldl_foldl_concat: "foldl (\<lambda>m t. foldl g m t) m ts = foldl g m (concat ts)"
  by (induction ts arbitrary: m) auto

lemma itemCounts_incrAll: "itemCounts ts = incrAll [] (concat ts)"
  by (simp add: itemCounts_def incrAll_def foldl_foldl_concat)

lemma foldl_cond_incr:
  "foldl (\<lambda>m c. if P c then mapIncr (key c) m else m) m cands
     = incrAll m (map key (filter P cands))"
  unfolding incrAll_def by (induction cands arbitrary: m) auto

lemma incrAll_append: "incrAll (incrAll m xs) ys = incrAll m (xs @ ys)"
  by (simp add: incrAll_def)

lemma candidateCounts_incrAll:
  "candidateCounts ts cands
     = incrAll [] (concat (map (\<lambda>t. map (\<lambda>c. joinComma (sort c))
                                     (filter (\<lambda>c. containsAll t c) cands)) ts))"
proof -
  have "foldl (\<lambda>m transaction.
              foldl (\<lambda>m candidate.
                       if containsAll transaction candidate
                       then mapIncr (joinComma (sort candidate)) m else m)
                m cands) m ts
     = incrAll m (concat (map (\<lambda>t. map (\<lambda>c. joinComma (sort c))
                                     (filter (\<lambda>c. containsAll t c) cands)) ts))" for m
    by (induction ts arbitrary: m) (simp_all add: foldl_cond_incr incrAll_append incrAll_def)
  then show ?thesis by (simp add: candidateCounts_def)
qed

lemma count_list_concat: "count_list (concat xss) x = sum_list (map (\<lambda>xs. count_list xs x) xss)"
  by (induction xss) auto

lemma count_list_distinct: "distinct xs \<Longrightarrow> count_list xs x = (if x \<in> set xs then 1 else 0)"
  by (induction xs) auto

lemma sum_list_indicator: "sum_list (map (\<lambda>x. if P x then 1 else 0) xs) = length (filter P xs)"
  by (induction xs) auto

lemma count_concat_baskets:
  assumes "\<forall>t \<in> set ts. distinct t"
  shows "count_list (concat ts) x = basketCount ts [x]"
proof -
  have "map (\<lambda>t. count_list t x) ts = map (\<lambda>t. if x \<in> set t then 1 else 0) ts"
    using assms by (intro map_cong) (auto simp: count_list_distinct)
  then have "count_list (concat ts) x = sum_list (map (\<lambda>t. if x \<in> set t then 1 else 0) ts)"
    by (simp only: count_list_concat)
  also have "\<dots> = length (filter (\<lambda>t. x \<in> set t) ts)"
    by (rule sum_list_indicator)
  finally show ?thesis
    by (simp add: basketCount_def containsAll_def)
qed

lemma itemCounts_entry:
  assumes "\<forall>t \<in> set ts. distinct t"
  shows "(item, c) \<in> set (itemCounts ts)
     \<longleftrightarrow> ((\<exists>t \<in> set ts. item \<in> set t) \<and> c = basketCount ts [item])"
  by (auto simp: itemCounts_incrAll incrAll_entry count_concat_baskets [OF assms])

lemma distinct_keys_itemCounts: "distinct (map fst (itemCounts ts))"
  by (simp add: itemCounts_incrAll distinct_incrAll)

section \<open>The frequency-ordered miner on every input\<close>

lemma fpPairs_distinct_members:
  "distinct items \<Longrightarrow> f \<in> set (fpPairs ts msc items) \<Longrightarrow>
     \<exists>x y. x \<in> set items \<and> y \<in> set items \<and> x \<noteq> y
          \<and> jge (Fin (of_nat (basketCount ts [x, y]))) msc
          \<and> f = mkItemset ts (sort [x, y]) (basketCount ts [x, y])"
  by (induction items) (auto split: if_splits)

lemma distinct_keys_sortedItems: "distinct (map fst (sortedItems ts msc))"
proof -
  let ?m = "itemCounts ts"
  have "mset (map fst (sort_key (\<lambda>(item, c). - int c) ?m)) = mset (map fst ?m)"
    by simp
  then have "distinct (map fst (sort_key (\<lambda>(item, c). - int c) ?m))"
    using distinct_keys_itemCounts [of ts] mset_eq_imp_distinct_iff by blast
  then show ?thesis
    unfolding sortedItems_def by (rule distinct_map_filter)
qed

lemma sortedItems_entry:
  "(item, c) \<in> set (sortedItems ts msc) \<longleftrightarrow> ((item, c) \<in> set (itemCounts ts) \<and> jge (Fin (of_nat c)) msc)"
  by (auto simp: sortedItems_def)

lemma sorted_sort_pair: "sorted (sort [x, y :: string])"
  by (rule sorted_sort)

lemma length_sort_pair: "length (sort [x, y :: string]) = 2"
  by (simp only: length_sort) simp

lemma set_sort_pair: "set (sort [x, y :: string]) = {x, y}"
  by (simp only: set_sort) simp

lemma distinct_sort_pair: "x \<noteq> y \<Longrightarrow> distinct (sort [x, y :: string])"
  by (simp only: distinct_sort) simp

lemma mkItemset_fields:
  "itemset (mkItemset ts items c) = items"
  "count' (mkItemset ts items c) = int c"
  "support (mkItemset ts items c) = jdiv (Fin (of_int (int c))) (Fin (of_nat (length ts)))"
  by (simp_all add: mkItemset_def)

text \<open>
  Every itemset the frequency-ordered miner returns is sorted, has one or two
  different members, a support of \<open>count / totalBaskets\<close> and a count of at least
  \<open>ceil(min_support * totalBaskets)\<close>; when no basket lists an item twice, its count
  is the number of baskets that contain all of its members.
\<close>

theorem fpGrowth_itemsets_correct:
  assumes "f \<in> set (fpGrowthAlgorithm ts ms)"
  shows "sorted (itemset f) \<and> distinct (itemset f)
       \<and> 1 \<le> length (itemset f) \<and> length (itemset f) \<le> 2
       \<and> support f = jdiv (Fin (of_int (count' f))) (Fin (of_nat (length ts)))
       \<and> jge (Fin (of_int (count' f))) (minSupportCount ms ts)
       \<and> ((\<forall>t \<in> set ts. distinct t) \<longrightarrow> count' f = int (basketCount ts (itemset f)))"
proof -
  let ?msc = "minSupportCount ms ts"
  let ?s = "sortedItems ts ?msc"
  from assms consider
    (single) item c where "(item, c) \<in> set ?s" "f = mkItemset ts [item] c"
  | (pair) "f \<in> set (fpPairs ts ?msc (map fst ?s))"
    by (auto simp: fpGrowthAlgorithm_def Let_def)
  then show ?thesis
  proof cases
    case single
    from single(1) have ic: "(item, c) \<in> set (itemCounts ts)" and ge: "jge (Fin (of_nat c)) ?msc"
      by (simp_all add: sortedItems_entry)
    have "(\<forall>t \<in> set ts. distinct t) \<longrightarrow> c = basketCount ts [item]"
      using ic itemCounts_entry by blast
    with ge show ?thesis by (simp add: single(2) mkItemset_fields)
  next
    case pair
    then obtain x y where xy: "x \<noteq> y" and ge: "jge (Fin (of_nat (basketCount ts [x, y]))) ?msc"
      and f: "f = mkItemset ts (sort [x, y]) (basketCount ts [x, y])"
      using fpPairs_distinct_members [OF distinct_keys_sortedItems] by blast
    define p where "p = sort [x, y]"
    have p: "sorted p" "length p = 2" "distinct p"
      unfolding p_def
      using sorted_sort_pair [of x y] length_sort_pair [of x y] distinct_sort_pair [OF xy]
      by blast+
    have "basketCount ts p = basketCount ts [x, y]"
      unfolding p_def by (rule basketCount_cong) (simp only: set_sort)
    moreover have "f = mkItemset ts p (basketCount ts [x, y])"
      by (simp only: f p_def)
    ultimately show ?thesis
      using p ge by (simp add: mkItemset_fields)
  qed
qed

theorem fpGrowth_itemsets_correct_witness:
  "\<lparr>itemset = [''a'', ''b''], support = Fin 1, count' = 1\<rparr>
     \<in> set (fpGrowthAlgorithm [[''b'', ''a'']] (1 / 2))
   \<and> sorted [''a'', ''b''] \<and> distinct [''a'', ''b'']
   \<and> Fin 1 = jdiv (Fin (of_int 1)) (Fin (of_nat (length [[''b'', ''a'']])))
   \<and> jge (Fin (of_int 1)) (minSupportCount (1 / 2) [[''b'', ''a'']])
   \<and> (1 :: int) = int (basketCount [[''b'', ''a'']] [''a'', ''b''])"
proof -
  let ?f = "\<lparr>itemset = [''a'', ''b''], support = Fin 1, count' = 1\<rparr>"
  let ?ts = "[[''b'', ''a'']]"
  have mem: "?f \<in> set (fpGrowthAlgorithm ?ts (1 / 2))" by code_simp
  have d: "\<forall>t \<in> set ?ts. distinct t" by simp
  note th = fpGrowth_itemsets_correct [OF mem]
  have "sorted [''a'', ''b'']" "distinct [''a'', ''b'']"
    "Fin 1 = jdiv (Fin (of_int 1)) (Fin (of_nat (length ?ts)))"
    "jge (Fin (of_int 1)) (minSupportCount (1 / 2) ?ts)"
    "(1 :: int) = int (basketCount ?ts [''a'', ''b''])"
    using th d by (simp_all only: FrequentItemset.select_convs simp_thms)
  with mem show ?thesis by (intro conjI)
qed

section \<open>The key round trip without commas\<close>

lemma sort_sorted_id: "sorted (c :: string list) \<Longrightarrow> sort c = c"
  by (rule sort_key_id_if_sorted) simp

lemma split_key_plain: "plain c \<Longrightarrow> splitComma (joinComma (sort c)) = c"
  by (simp add: plain_def sort_sorted_id split_join)

lemma key_inj_plain:
  "plain c \<Longrightarrow> plain c' \<Longrightarrow> joinComma (sort c) = joinComma (sort c') \<Longrightarrow> c = c'"
  by (metis split_key_plain)

lemma count_list_map_inj:
  "inj_on f (insert x (set xs)) \<Longrightarrow> count_list (map f xs) (f x) = count_list xs x"
  by (induction xs) (auto simp: inj_on_def)

lemma passing_plain:
  assumes "commaFree ts" "t \<in> set ts" "containsAll t c" "c \<noteq> []" "sorted c"
  shows "plain c"
  using assms commaFree_item [OF assms(1,2)]
  by (auto simp: plain_def containsAll_set)

lemma count_key_in_basket:
  assumes cf: "commaFree ts" and t: "t \<in> set ts"
    and cands: "distinct cands" "\<forall>c \<in> set cands. c \<noteq> [] \<and> sorted c"
    and c: "c \<in> set cands" "plain c"
  shows "count_list (map (\<lambda>c. joinComma (sort c)) (filter (\<lambda>c. containsAll t c) cands))
           (joinComma (sort c))
         = (if containsAll t c then 1 else 0)"
proof -
  let ?key = "\<lambda>c. joinComma (sort c)"
  let ?pass = "filter (\<lambda>c. containsAll t c) cands"
  have "\<forall>c' \<in> set ?pass. plain c'"
    using passing_plain [OF cf t] cands(2) by auto
  then have "inj_on ?key (insert c (set ?pass))"
    using c(2) key_inj_plain by (auto simp: inj_on_def)
  then have "count_list (map ?key ?pass) (?key c) = count_list ?pass c"
    by (rule count_list_map_inj)
  also have "\<dots> = (if containsAll t c then 1 else 0)"
    using cands(1) c(1) by (simp add: count_list_distinct)
  finally show ?thesis .
qed

lemma count_key_total:
  assumes cf: "commaFree ts"
    and cands: "distinct cands" "\<forall>c \<in> set cands. c \<noteq> [] \<and> sorted c"
    and c: "c \<in> set cands" "plain c"
  shows "count_list (concat (map (\<lambda>t. map (\<lambda>c. joinComma (sort c))
                                     (filter (\<lambda>c. containsAll t c) cands)) ts))
           (joinComma (sort c))
         = basketCount ts c"
proof -
  let ?key = "\<lambda>c. joinComma (sort c)"
  have "map (\<lambda>ks. count_list ks (?key c))
          (map (\<lambda>t. map ?key (filter (\<lambda>c. containsAll t c) cands)) ts)
        = map (\<lambda>t. if containsAll t c then 1 else 0) ts"
    unfolding map_map comp_def
    using count_key_in_basket [OF cf _ cands c] by (intro map_cong) auto
  then have "count_list (concat (map (\<lambda>t. map ?key (filter (\<lambda>c. containsAll t c) cands)) ts))
               (?key c)
             = sum_list (map (\<lambda>t. if containsAll t c then 1 else 0) ts)"
    by (simp only: count_list_concat)
  also have "\<dots> = length (filter (\<lambda>t. containsAll t c) ts)"
    by (rule sum_list_indicator)
  finally show ?thesis by (simp add: basketCount_def)
qed

lemma candidateCounts_entry:
  assumes cf: "commaFree ts"
    and cands: "distinct cands" "\<forall>c \<in> set cands. c \<noteq> [] \<and> sorted c"
  shows "(key, n) \<in> set (candidateCounts ts cands)
     \<longleftrightarrow> (\<exists>c \<in> set cands. 0 < basketCount ts c \<and> key = joinComma (sort c)
                      \<and> n = basketCount ts c)"
proof -
  let ?key = "\<lambda>c. joinComma (sort c)"
  let ?ks = "concat (map (\<lambda>t. map ?key (filter (\<lambda>c. containsAll t c) cands)) ts)"
  have mem: "key \<in> set ?ks \<longleftrightarrow> (\<exists>c \<in> set cands. \<exists>t \<in> set ts. containsAll t c \<and> key = ?key c)"
    by auto
  have pos: "0 < basketCount ts c \<longleftrightarrow> (\<exists>t \<in> set ts. containsAll t c)" for c
    by (auto simp: basketCount_def filter_empty_conv)
  have pl: "plain c" if "c \<in> set cands" "0 < basketCount ts c" for c
    using that pos passing_plain [OF cf] cands(2) by blast
  show ?thesis
  proof
    assume "(key, n) \<in> set (candidateCounts ts cands)"
    then have k: "key \<in> set ?ks" and n: "n = count_list ?ks key"
      by (simp_all add: candidateCounts_incrAll incrAll_entry)
    from k obtain c where c: "c \<in> set cands" "0 < basketCount ts c" "key = ?key c"
      using mem pos by blast
    then have "n = basketCount ts c"
      using n count_key_total [OF cf cands c(1) pl [OF c(1,2)]] by simp
    with c show "\<exists>c \<in> set cands. 0 < basketCount ts c \<and> key = ?key c \<and> n = basketCount ts c"
      by blast
  next
    assume "\<exists>c \<in> set cands. 0 < basketCount ts c \<and> key = ?key c \<and> n = basketCount ts c"
    then obtain c where c: "c \<in> set cands" "0 < basketCount ts c" "key = ?key c"
      "n = basketCount ts c" by blast
    have "key \<in> set ?ks" using c mem pos by blast
    moreover have "n = count_list ?ks key"
      using c count_key_total [OF cf cands c(1) pl [OF c(1,2)]] by simp
    ultimately show "(key, n) \<in> set (candidateCounts ts cands)"
      by (simp add: candidateCounts_incrAll incrAll_entry)
  qed
qed

lemma kFrequent_entry:
  assumes cf: "commaFree ts"
    and cands: "distinct cands" "\<forall>c \<in> set cands. c \<noteq> [] \<and> sorted c"
  shows "f \<in> set (kFrequentItemsets ts msc cands)
     \<longleftrightarrow> (\<exists>c \<in> set cands. 0 < basketCount ts c \<and> jge (Fin (of_nat (basketCount ts c))) msc
                      \<and> f = mkItemset ts c (basketCount ts c))"
proof -
  have pos: "0 < basketCount ts c \<longleftrightarrow> (\<exists>t \<in> set ts. containsAll t c)" for c
    by (auto simp: basketCount_def filter_empty_conv)
  have sp: "splitComma (joinComma (sort c)) = c" if "c \<in> set cands" "0 < basketCount ts c" for c
    using that pos passing_plain [OF cf] cands(2) split_key_plain by blast
  have "f \<in> set (kFrequentItemsets ts msc cands)
     \<longleftrightarrow> (\<exists>key n. (key, n) \<in> set (candidateCounts ts cands) \<and> jge (Fin (of_nat n)) msc
                   \<and> f = mkItemset ts (splitComma key) n)"
    by (auto simp: kFrequentItemsets_def)
  also have "\<dots> \<longleftrightarrow> (\<exists>c \<in> set cands. 0 < basketCount ts c \<and> jge (Fin (of_nat (basketCount ts c))) msc
                      \<and> f = mkItemset ts c (basketCount ts c))"
    unfolding candidateCounts_entry [OF cf cands]
  proof (intro iffI; elim exE bexE conjE)
    fix key n c
    assume "c \<in> set cands" "0 < basketCount ts c" "key = joinComma (sort c)"
      "n = basketCount ts c" "jge (Fin (of_nat n)) msc" "f = mkItemset ts (splitComma key) n"
    then show "\<exists>c \<in> set cands. 0 < basketCount ts c \<and> jge (Fin (of_nat (basketCount ts c))) msc
                      \<and> f = mkItemset ts c (basketCount ts c)"
      using sp by (intro bexI [of _ c]) simp_all
  next
    fix c
    assume c: "c \<in> set cands" "0 < basketCount ts c" "jge (Fin (of_nat (basketCount ts c))) msc"
      "f = mkItemset ts c (basketCount ts c)"
    then have "f = mkItemset ts (splitComma (joinComma (sort c))) (basketCount ts c)"
      using sp by simp
    with c show "\<exists>key n. (\<exists>c \<in> set cands. 0 < basketCount ts c \<and> key = joinComma (sort c)
                       \<and> n = basketCount ts c) \<and> jge (Fin (of_nat n)) msc
                   \<and> f = mkItemset ts (splitComma key) n"
      by blast
  qed
  finally show ?thesis .
qed

section \<open>The candidates of level 2 and level 3\<close>

lemma strictPairE:
  assumes "strictPair p"
  obtains a b where "p = [a, b]" "a < b"
  using assms by (auto simp: strictPair_def split: list.splits)

lemma pairOf_if: "pairOf x y = (if x \<le> y then [x, y] else [y, x])"
  by (simp add: pairOf_def)

lemma strictPair_pairOf: "x \<noteq> y \<Longrightarrow> strictPair (pairOf x y)"
  unfolding pairOf_if by (auto simp: strictPair_def)

lemma pairOf_eq_iff: "pairOf x y = pairOf x' y' \<longleftrightarrow> {x, y} = {x', y'}"
  unfolding pairOf_if by (auto simp: doubleton_eq_iff)

lemma pairOf_commute: "pairOf x y = pairOf y x"
  by (simp add: pairOf_eq_iff insert_commute)

lemma pairOf_props: "sorted (pairOf x y)" "length (pairOf x y) = 2" "set (pairOf x y) = {x, y}"
  unfolding pairOf_if by auto

lemma canCombine_2: "canCombine a b 2"
  by (simp add: canCombine_def)

lemma concat_map_singleton: "concat (map (\<lambda>y. [g y]) xs) = map g xs"
  by (induction xs) auto

lemma newCandidate_singletons: "newCandidate (sort [x]) (sort [y]) = pairOf x y"
  by (simp add: newCandidate_def pairOf_def)

lemma gc_singletons_Cons:
  "generateCandidates (map (\<lambda>x. [x]) (x # xs)) 2
     = map (pairOf x) xs @ generateCandidates (map (\<lambda>x. [x]) xs) 2"
proof -
  have "(\<lambda>y. if canCombine (sort [x]) (sort y) 2 then [newCandidate (sort [x]) (sort y)] else [])
          \<circ> (\<lambda>x. [x])
        = (\<lambda>y. [pairOf x y])"
    by (rule ext) (simp only: comp_def canCombine_2 newCandidate_singletons if_True)
  then show ?thesis
    by (simp only: list.map generateCandidates.simps map_map concat_map_singleton)
qed

lemma gc_singletons_mem:
  "distinct xs \<Longrightarrow>
   c \<in> set (generateCandidates (map (\<lambda>x. [x]) xs) 2)
     \<longleftrightarrow> (\<exists>x \<in> set xs. \<exists>y \<in> set xs. x \<noteq> y \<and> c = pairOf x y)"
proof (induction xs)
  case Nil
  then show ?case by simp
next
  case (Cons x xs)
  then have x: "x \<notin> set xs" and d: "distinct xs" by simp_all
  show ?case
    unfolding gc_singletons_Cons set_append Un_iff Cons.IH [OF d]
  proof
    assume "c \<in> set (map (pairOf x) xs)
            \<or> (\<exists>a \<in> set xs. \<exists>b \<in> set xs. a \<noteq> b \<and> c = pairOf a b)"
    then show "\<exists>a \<in> set (x # xs). \<exists>b \<in> set (x # xs). a \<noteq> b \<and> c = pairOf a b"
    proof
      assume "c \<in> set (map (pairOf x) xs)"
      then obtain y where "y \<in> set xs" "c = pairOf x y" by auto
      with x show ?thesis by (intro bexI [of _ x] bexI [of _ y]) auto
    next
      assume "\<exists>a \<in> set xs. \<exists>b \<in> set xs. a \<noteq> b \<and> c = pairOf a b"
      then show ?thesis by auto
    qed
  next
    assume "\<exists>a \<in> set (x # xs). \<exists>b \<in> set (x # xs). a \<noteq> b \<and> c = pairOf a b"
    then obtain a b where ab: "a \<in> set (x # xs)" "b \<in> set (x # xs)" "a \<noteq> b"
      "c = pairOf a b" by blast
    show "c \<in> set (map (pairOf x) xs)
          \<or> (\<exists>a \<in> set xs. \<exists>b \<in> set xs. a \<noteq> b \<and> c = pairOf a b)"
    proof (cases "a = x")
      case True
      with ab have "b \<in> set xs" "c = pairOf x b" by auto
      then show ?thesis by auto
    next
      case False
      note a = this
      show ?thesis
      proof (cases "b = x")
        case True
        with ab a have "a \<in> set xs" "c = pairOf x a" by (auto simp: pairOf_commute [of a x])
        then show ?thesis by auto
      next
        case False
        with a ab show ?thesis by auto
      qed
    qed
  qed
qed

lemma gc_singletons_distinct:
  "distinct xs \<Longrightarrow> distinct (generateCandidates (map (\<lambda>x. [x]) xs) 2)"
proof (induction xs)
  case Nil
  then show ?case by simp
next
  case (Cons x xs)
  then have x: "x \<notin> set xs" and d: "distinct xs" by simp_all
  have inj: "inj_on (pairOf x) (set xs)"
    using x by (auto simp: inj_on_def pairOf_eq_iff doubleton_eq_iff)
  have d1: "distinct (map (pairOf x) xs)"
    using d inj by (simp add: distinct_map)
  have dj: "set (map (pairOf x) xs)
              \<inter> set (generateCandidates (map (\<lambda>x. [x]) xs) 2) = {}"
  proof (rule ccontr)
    assume "\<not> ?thesis"
    then obtain c where c1: "c \<in> set (map (pairOf x) xs)"
      and c2: "c \<in> set (generateCandidates (map (\<lambda>x. [x]) xs) 2)" by blast
    from c1 obtain y where "c = pairOf x y" by auto
    moreover from c2 obtain a b where "a \<in> set xs" "b \<in> set xs" "c = pairOf a b"
      using gc_singletons_mem [OF d] by blast
    ultimately have "{x, y} = {a, b}" by (simp add: pairOf_eq_iff)
    then have "x = a \<or> x = b" by (auto simp: doubleton_eq_iff)
    with x \<open>a \<in> set xs\<close> \<open>b \<in> set xs\<close> show False by auto
  qed
  show ?case
    unfolding gc_singletons_Cons using d1 dj Cons.IH [OF d] by simp
qed

lemma frequent1_itemsets:
  "map itemset (frequent1 ts msc)
     = map (\<lambda>x. [x]) (map fst (filter (\<lambda>(item, c). jge (Fin (of_nat c)) msc) (itemCounts ts)))"
  by (simp add: frequent1_def mkItemset_def comp_def case_prod_beta)

lemma distinct_frequent_items:
  "distinct (map fst (filter (\<lambda>(item, c). jge (Fin (of_nat c)) msc) (itemCounts ts)))"
  using distinct_keys_itemCounts by (rule distinct_map_filter)

lemma sort_strictPair: "strictPair p \<Longrightarrow> sort p = p"
  by (auto elim!: strictPairE)

lemma canCombine_3_pairs: "canCombine [a, b] [a', b'] 3 \<longleftrightarrow> a = a'"
  by (simp add: canCombine_def nthOpt_def)

lemma newCandidate_pairs:
  "a < b \<Longrightarrow> a < b' \<Longrightarrow> newCandidate [a, b] [a', b'] = a # pairOf b b'"
  by (auto simp: newCandidate_def pairOf_if)

lemma concat_map_if: "concat (map (\<lambda>q. if C q then [g q] else []) xs) = map g (filter C xs)"
  by (induction xs) auto

lemma gc_pairs_Cons:
  assumes "a < b" and "\<forall>q \<in> set rest. strictPair q"
  shows "generateCandidates ([a, b] # rest) 3
     = map (\<lambda>q. a # pairOf b (last q)) (filter (\<lambda>q. hd q = a) rest)
       @ generateCandidates rest 3"
proof -
  have p: "sort [a, b] = [a, b]" using assms(1) by (simp add: less_imp_le)
  have "map (\<lambda>q. if canCombine (sort [a, b]) (sort q) 3
                  then [newCandidate (sort [a, b]) (sort q)] else []) rest
        = map (\<lambda>q. if hd q = a then [a # pairOf b (last q)] else []) rest"
  proof (rule map_cong [OF refl])
    fix q assume "q \<in> set rest"
    then have "strictPair q" using assms(2) by blast
    then obtain a' b' where q: "q = [a', b']" "a' < b'" by (rule strictPairE)
    have sq: "sort q = q" using \<open>strictPair q\<close> by (rule sort_strictPair)
    show "(if canCombine (sort [a, b]) (sort q) 3
           then [newCandidate (sort [a, b]) (sort q)] else [])
          = (if hd q = a then [a # pairOf b (last q)] else [])"
      unfolding p sq unfolding q canCombine_3_pairs
      using assms(1) q(2) by (auto simp: newCandidate_pairs)
  qed
  then show ?thesis
    by (simp only: generateCandidates.simps concat_map_if)
qed

lemma gc_pairs_mem:
  "\<forall>p \<in> set ps. strictPair p \<Longrightarrow> distinct ps \<Longrightarrow> c \<in> set (generateCandidates ps 3) \<Longrightarrow>
     \<exists>a b b'. [a, b] \<in> set ps \<and> [a, b'] \<in> set ps \<and> a < b \<and> a < b' \<and> b \<noteq> b'
              \<and> c = a # pairOf b b'"
proof (induction ps)
  case Nil
  then show ?case by simp
next
  case (Cons p ps)
  then have sp: "strictPair p" and sr: "\<forall>q \<in> set ps. strictPair q"
    and np: "p \<notin> set ps" and d: "distinct ps" by simp_all
  from sp obtain a b where p: "p = [a, b]" "a < b" by (rule strictPairE)
  from Cons.prems(3) consider
    (new) "c \<in> set (map (\<lambda>q. a # pairOf b (last q)) (filter (\<lambda>q. hd q = a) ps))"
  | (old) "c \<in> set (generateCandidates ps 3)"
    unfolding p gc_pairs_Cons [OF p(2) sr] by auto
  then show ?case
  proof cases
    case new
    then obtain q where q: "q \<in> set ps" "hd q = a" "c = a # pairOf b (last q)" by auto
    from sr q(1) obtain a' b' where q': "q = [a', b']" "a' < b'"
      using strictPairE by blast
    with q have "a' = a" "c = a # pairOf b b'" by simp_all
    moreover have "b \<noteq> b'" using np q(1) q' \<open>a' = a\<close> p by auto
    ultimately show ?thesis using p q q' by (intro exI [of _ a] exI [of _ b] exI [of _ b']) auto
  next
    case old
    from Cons.IH [OF sr d old] show ?thesis by auto
  qed
qed

lemma gc_pairs_distinct:
  "\<forall>p \<in> set ps. strictPair p \<Longrightarrow> distinct ps \<Longrightarrow> distinct (generateCandidates ps 3)"
proof (induction ps)
  case Nil
  then show ?case by simp
next
  case (Cons p ps)
  then have sp: "strictPair p" and sr: "\<forall>q \<in> set ps. strictPair q"
    and np: "p \<notin> set ps" and d: "distinct ps" by simp_all
  from sp obtain a b where p: "p = [a, b]" and ab: "a < b" by (rule strictPairE)
  let ?g = "\<lambda>q. a # pairOf b (last q)"
  let ?same = "filter (\<lambda>q. hd q = a) ps"
  have shape: "\<exists>x. q = [a, x]" if "q \<in> set ?same" for q
  proof -
    from that have qs: "q \<in> set ps" "hd q = a" by simp_all
    from sr qs(1) have "strictPair q" by blast
    then obtain a1 x where "q = [a1, x]" by (rule strictPairE)
    with qs(2) show ?thesis by simp
  qed
  have inj: "inj_on ?g (set ?same)"
  proof (rule inj_onI)
    fix q q' assume q: "q \<in> set ?same" and q': "q' \<in> set ?same" and e: "?g q = ?g q'"
    from shape [OF q] obtain x where x: "q = [a, x]" by blast
    from shape [OF q'] obtain y where y: "q' = [a, y]" by blast
    from e have "pairOf b x = pairOf b y" by (simp add: x y)
    then have "{b, x} = {b, y}" by (simp only: pairOf_eq_iff)
    then have "x = y" by (auto simp: doubleton_eq_iff)
    then show "q = q'" by (simp add: x y)
  qed
  have "distinct ?same" using d by simp
  then have d1: "distinct (map ?g ?same)"
    using inj by (simp only: distinct_map)
  have dj: "set (map ?g ?same) \<inter> set (generateCandidates ps 3) = {}"
  proof (rule ccontr)
    assume "\<not> ?thesis"
    then obtain c where c1: "c \<in> set (map ?g ?same)"
      and c2: "c \<in> set (generateCandidates ps 3)" by blast
    from c1 obtain q where cq: "c = a # pairOf b (last q)" by auto
    from gc_pairs_mem [OF sr d c2] obtain a' b1 b2
      where o: "[a', b1] \<in> set ps" "[a', b2] \<in> set ps" and co: "c = a' # pairOf b1 b2"
      by blast
    from cq co have "a # pairOf b (last q) = a' # pairOf b1 b2" by simp
    then have aa: "a = a'" and "pairOf b (last q) = pairOf b1 b2" by simp_all
    then have "{b, last q} = {b1, b2}" by (simp only: pairOf_eq_iff)
    then have "b = b1 \<or> b = b2" by (auto simp: doubleton_eq_iff)
    then have "[a, b] \<in> set ps" using o aa by auto
    with np p show False by simp
  qed
  have "distinct (map ?g ?same @ generateCandidates ps 3)"
    using d1 dj Cons.IH [OF sr d] by (simp only: distinct_append)
  then show ?case
    by (simp only: p gc_pairs_Cons [OF ab sr])
qed

lemma triple_props:
  assumes "a < b" "a < b'" "b \<noteq> b'"
  shows "sorted (a # pairOf b b')" "distinct (a # pairOf b b')" "length (a # pairOf b b') = 3"
  using assms unfolding pairOf_if by auto

lemma join_split: "joinComma (splitComma s) = s"
proof (induction s)
  case Nil
  then show ?case by simp
next
  case (Cons c cs)
  obtain w ws where ws: "splitComma cs = w # ws"
    by (cases cs; cases "splitComma cs") (auto split: if_splits list.splits)
  show ?case
    using Cons ws by (cases ws) auto
qed

lemma inj_splitComma: "inj splitComma"
  by (metis injI join_split)

lemma distinct_keys_candidateCounts: "distinct (map fst (candidateCounts ts cands))"
  by (simp add: candidateCounts_incrAll distinct_incrAll)

lemma distinct_kFrequent_itemsets: "distinct (map itemset (kFrequentItemsets ts msc cands))"
proof -
  let ?cc = "filter (\<lambda>(key, c). jge (Fin (of_nat c)) msc) (candidateCounts ts cands)"
  have eq: "map itemset (kFrequentItemsets ts msc cands) = map splitComma (map fst ?cc)"
    by (simp add: kFrequentItemsets_def mkItemset_def comp_def case_prod_beta)
  have d: "distinct (map fst ?cc)"
    using distinct_keys_candidateCounts by (rule distinct_map_filter)
  have inj: "inj_on splitComma (set (map fst ?cc))"
    by (rule inj_onI) (metis join_split)
  have "distinct (map splitComma (map fst ?cc))"
    using d inj by (simp only: distinct_map [of splitComma]) 
  then show ?thesis by (simp only: eq)
qed

section \<open>The three levels of the Apriori miner\<close>

lemma candidateCounts_no_candidates: "candidateCounts ts [] = []"
proof -
  have "foldl (\<lambda>m transaction. foldl (\<lambda>m candidate.
                       if containsAll transaction candidate
                       then mapIncr (joinComma (sort candidate)) m else m) m []) m ts = m"
    for m :: "(string \<times> nat) list"
    by (induction ts) simp_all
  then show ?thesis by (simp add: candidateCounts_def)
qed

lemma kFrequent_no_candidates: "kFrequentItemsets ts msc [] = []"
  by (simp add: kFrequentItemsets_def candidateCounts_no_candidates)

lemma sortedInPlace_id:
  assumes "\<forall>f \<in> set fs. sorted (itemset f)"
  shows "sortedInPlace fs = fs"
proof -
  have "map (\<lambda>f. f\<lparr>itemset := sort (itemset f)\<rparr>) fs = fs"
    using assms by (intro map_idI) (simp add: sort_sorted_id)
  then show ?thesis by (simp add: sortedInPlace_def)
qed

lemma aprioriLoop_4: "aprioriLoop ts msc 4 c acc = acc"
  by (subst aprioriLoop.simps) simp

lemma aprioriLoop_3:
  "aprioriLoop ts msc 3 c acc = acc @ sortedInPlace (kFrequentItemsets ts msc c)"
proof (cases "c = []")
  case True
  then show ?thesis
    by (simp add: aprioriLoop_no_candidates kFrequent_no_candidates sortedInPlace_def)
next
  case False
  have "aprioriLoop ts msc 3 c acc
        = aprioriLoop ts msc 4 (generateCandidates (map itemset (kFrequentItemsets ts msc c)) 4)
            (acc @ sortedInPlace (kFrequentItemsets ts msc c))"
    using False by (subst aprioriLoop.simps) (simp add: Let_def)
  then show ?thesis by (simp only: aprioriLoop_4)
qed

lemma aprioriLoop_2:
  "aprioriLoop ts msc 2 c acc
     = acc @ sortedInPlace (kFrequentItemsets ts msc c)
         @ sortedInPlace (kFrequentItemsets ts msc
             (generateCandidates (map itemset (kFrequentItemsets ts msc c)) 3))"
proof (cases "c = []")
  case True
  then show ?thesis
    by (simp add: aprioriLoop_no_candidates kFrequent_no_candidates sortedInPlace_def)
next
  case False
  have "aprioriLoop ts msc 2 c acc
        = aprioriLoop ts msc 3 (generateCandidates (map itemset (kFrequentItemsets ts msc c)) 3)
            (acc @ sortedInPlace (kFrequentItemsets ts msc c))"
    using False by (subst aprioriLoop.simps) (simp add: Let_def)
  then show ?thesis by (simp only: aprioriLoop_3 append_assoc)
qed

lemma apriori_levels:
  "aprioriAlgorithm ts ms
     = level1 ts ms @ sortedInPlace (level2 ts ms) @ sortedInPlace (level3 ts ms)"
  by (simp only: aprioriAlgorithm_def Let_def aprioriLoop_2 level1_def level2_def level3_def)

lemma level1_itemsets: "map itemset (level1 ts ms) = map (\<lambda>x. [x]) (frequentItems ts ms)"
  by (simp add: level1_def frequentItems_def frequent1_itemsets)

lemma distinct_frequentItems: "distinct (frequentItems ts ms)"
  unfolding frequentItems_def by (rule distinct_frequent_items)

lemma level1_entry:
  "f \<in> set (level1 ts ms)
     \<longleftrightarrow> (\<exists>item c. (item, c) \<in> set (itemCounts ts) \<and> jge (Fin (of_nat c)) (minSupportCount ms ts)
                    \<and> f = mkItemset ts [item] c)"
  by (auto simp: level1_def frequent1_def)

lemma candidates2_props:
  "distinct (generateCandidates (map itemset (level1 ts ms)) 2)"
  "c \<in> set (generateCandidates (map itemset (level1 ts ms)) 2)
     \<longleftrightarrow> (\<exists>x \<in> set (frequentItems ts ms). \<exists>y \<in> set (frequentItems ts ms).
            x \<noteq> y \<and> c = pairOf x y)"
  unfolding level1_itemsets
  by (rule gc_singletons_distinct [OF distinct_frequentItems],
      rule gc_singletons_mem [OF distinct_frequentItems])

lemma candidates2_plain:
  "\<forall>c \<in> set (generateCandidates (map itemset (level1 ts ms)) 2). c \<noteq> [] \<and> sorted c"
proof
  fix c assume "c \<in> set (generateCandidates (map itemset (level1 ts ms)) 2)"
  then obtain x y where c: "c = pairOf x y"
    unfolding candidates2_props(2) by blast
  have "length c = 2" "sorted c" unfolding c by (rule pairOf_props)+
  then show "c \<noteq> [] \<and> sorted c" by auto
qed

lemma level2_entry:
  assumes "commaFree ts"
  shows "f \<in> set (level2 ts ms)
     \<longleftrightarrow> (\<exists>x \<in> set (frequentItems ts ms). \<exists>y \<in> set (frequentItems ts ms). x \<noteq> y
            \<and> 0 < basketCount ts (pairOf x y)
            \<and> jge (Fin (of_nat (basketCount ts (pairOf x y)))) (minSupportCount ms ts)
            \<and> f = mkItemset ts (pairOf x y) (basketCount ts (pairOf x y)))"
    (is "?L \<longleftrightarrow> ?R")
proof -
  let ?C = "generateCandidates (map itemset (level1 ts ms)) 2"
  let ?ok = "\<lambda>c. 0 < basketCount ts c \<and> jge (Fin (of_nat (basketCount ts c))) (minSupportCount ms ts)
                \<and> f = mkItemset ts c (basketCount ts c)"
  have k: "?L \<longleftrightarrow> (\<exists>c \<in> set ?C. ?ok c)"
    unfolding level2_def
    by (rule kFrequent_entry [OF assms candidates2_props(1) candidates2_plain])
  show ?thesis
  proof
    assume ?L
    then obtain c where c: "c \<in> set ?C" "?ok c" using k by blast
    from c(1) obtain x y where xy: "x \<in> set (frequentItems ts ms)"
      "y \<in> set (frequentItems ts ms)" "x \<noteq> y" "c = pairOf x y"
      unfolding candidates2_props(2) by blast
    from c(2) have "?ok (pairOf x y)" unfolding xy(4) .
    with xy(1-3) show ?R by blast
  next
    assume ?R
    then obtain x y where xy: "x \<in> set (frequentItems ts ms)"
      "y \<in> set (frequentItems ts ms)" "x \<noteq> y" and ok: "?ok (pairOf x y)" by blast
    from xy have "pairOf x y \<in> set ?C" unfolding candidates2_props(2) by blast
    with ok show ?L unfolding k by blast
  qed
qed

lemma level2_strictPairs:
  assumes "commaFree ts"
  shows "\<forall>p \<in> set (map itemset (level2 ts ms)). strictPair p"
proof
  fix p assume "p \<in> set (map itemset (level2 ts ms))"
  then obtain f where f: "f \<in> set (level2 ts ms)" and p: "p = itemset f" by auto
  from f obtain x y where xy: "x \<noteq> y"
    and fe: "f = mkItemset ts (pairOf x y) (basketCount ts (pairOf x y))"
    unfolding level2_entry [OF assms] by blast
  have "p = pairOf x y" unfolding p fe by (rule mkItemset_fields(1))
  then show "strictPair p" using strictPair_pairOf [OF xy] by simp
qed

lemma candidates3_props:
  assumes "commaFree ts"
  shows "distinct (generateCandidates (map itemset (level2 ts ms)) 3)"
    and "c \<in> set (generateCandidates (map itemset (level2 ts ms)) 3) \<Longrightarrow>
           \<exists>a b b'. a < b \<and> a < b' \<and> b \<noteq> b' \<and> c = a # pairOf b b'"
proof -
  have d: "distinct (map itemset (level2 ts ms))"
    unfolding level2_def by (rule distinct_kFrequent_itemsets)
  show "distinct (generateCandidates (map itemset (level2 ts ms)) 3)"
    using level2_strictPairs [OF assms] d by (rule gc_pairs_distinct)
  show "\<exists>a b b'. a < b \<and> a < b' \<and> b \<noteq> b' \<and> c = a # pairOf b b'"
    if "c \<in> set (generateCandidates (map itemset (level2 ts ms)) 3)"
    using gc_pairs_mem [OF level2_strictPairs [OF assms] d that] by blast
qed

lemma candidates3_plain:
  assumes "commaFree ts"
  shows "\<forall>c \<in> set (generateCandidates (map itemset (level2 ts ms)) 3). c \<noteq> [] \<and> sorted c"
  using candidates3_props(2) [OF assms] triple_props(1) by fastforce

lemma level3_entry:
  assumes "commaFree ts" and "f \<in> set (level3 ts ms)"
  shows "\<exists>a b b'. a < b \<and> a < b' \<and> b \<noteq> b'
            \<and> jge (Fin (of_nat (basketCount ts (a # pairOf b b')))) (minSupportCount ms ts)
            \<and> f = mkItemset ts (a # pairOf b b') (basketCount ts (a # pairOf b b'))"
proof -
  from assms(2) obtain c where c: "c \<in> set (generateCandidates (map itemset (level2 ts ms)) 3)"
    and m: "jge (Fin (of_nat (basketCount ts c))) (minSupportCount ms ts)"
    and f: "f = mkItemset ts c (basketCount ts c)"
    unfolding level3_def
      kFrequent_entry [OF assms(1) candidates3_props(1) [OF assms(1)] candidates3_plain [OF assms(1)]]
    by blast
  from candidates3_props(2) [OF assms(1) c] m f show ?thesis by blast
qed

section \<open>The Apriori miner on identifiers without commas\<close>

lemma strictPair_props:
  assumes "strictPair p"
  shows "sorted p" "distinct p" "length p = 2"
  using assms by (auto elim!: strictPairE)

lemma level2_sorted:
  assumes "commaFree ts"
  shows "\<forall>f \<in> set (level2 ts ms). sorted (itemset f)"
  using level2_strictPairs [OF assms] strictPair_props(1) by simp

lemma level3_sorted:
  assumes "commaFree ts"
  shows "\<forall>f \<in> set (level3 ts ms). sorted (itemset f)"
proof
  fix f assume "f \<in> set (level3 ts ms)"
  from level3_entry [OF assms this] obtain a b b' where
    o: "a < b" "a < b'" "b \<noteq> b'" and
    f: "f = mkItemset ts (a # pairOf b b') (basketCount ts (a # pairOf b b'))" by blast
  have "itemset f = a # pairOf b b'" unfolding f by (rule mkItemset_fields(1))
  then show "sorted (itemset f)" using triple_props(1) [OF o] by simp
qed

lemma apriori_levels_plain:
  assumes "commaFree ts"
  shows "aprioriAlgorithm ts ms = level1 ts ms @ level2 ts ms @ level3 ts ms"
  unfolding apriori_levels
    sortedInPlace_id [OF level2_sorted [OF assms]]
    sortedInPlace_id [OF level3_sorted [OF assms]] ..

lemma mkItemset_correct:
  assumes "sorted c" "distinct c" "1 \<le> length c" "length c \<le> 3"
    and "jge (Fin (of_nat n)) msc" and "n = basketCount ts c"
  shows "sorted (itemset (mkItemset ts c n)) \<and> distinct (itemset (mkItemset ts c n))
       \<and> 1 \<le> length (itemset (mkItemset ts c n)) \<and> length (itemset (mkItemset ts c n)) \<le> 3
       \<and> support (mkItemset ts c n)
           = jdiv (Fin (of_int (count' (mkItemset ts c n)))) (Fin (of_nat (length ts)))
       \<and> jge (Fin (of_int (count' (mkItemset ts c n)))) msc
       \<and> count' (mkItemset ts c n) = int (basketCount ts (itemset (mkItemset ts c n)))"
  using assms by (simp add: mkItemset_fields)

text \<open>
  When no item identifier contains a comma, every itemset the Apriori miner
  returns is sorted, has between one and three different members, a support of
  \<open>count / totalBaskets\<close> and a count of at least \<open>ceil(min_support * totalBaskets)\<close>;
  when moreover no basket lists an item twice, its count is the number of baskets that
  contain all of its members.
\<close>

theorem apriori_itemsets_correct:
  assumes cf: "commaFree ts" and f: "f \<in> set (aprioriAlgorithm ts ms)"
  shows "sorted (itemset f) \<and> distinct (itemset f)
       \<and> 1 \<le> length (itemset f) \<and> length (itemset f) \<le> 3
       \<and> support f = jdiv (Fin (of_int (count' f))) (Fin (of_nat (length ts)))
       \<and> jge (Fin (of_int (count' f))) (minSupportCount ms ts)
       \<and> ((\<forall>t \<in> set ts. distinct t) \<longrightarrow> count' f = int (basketCount ts (itemset f)))"
proof -
  let ?msc = "minSupportCount ms ts"
  from f consider (one) "f \<in> set (level1 ts ms)" | (two) "f \<in> set (level2 ts ms)"
    | (three) "f \<in> set (level3 ts ms)"
    unfolding apriori_levels_plain [OF cf] by auto
  then show ?thesis
  proof cases
    case one
    then obtain item c where ic: "(item, c) \<in> set (itemCounts ts)" and ge: "jge (Fin (of_nat c)) ?msc"
      and fe: "f = mkItemset ts [item] c"
      unfolding level1_entry by blast
    have "(\<forall>t \<in> set ts. distinct t) \<longrightarrow> c = basketCount ts [item]"
      using ic itemCounts_entry by blast
    with ge show ?thesis by (simp add: fe mkItemset_fields)
  next
    case two
    then obtain x y where xy: "x \<noteq> y"
      and ge: "jge (Fin (of_nat (basketCount ts (pairOf x y)))) ?msc"
      and fe: "f = mkItemset ts (pairOf x y) (basketCount ts (pairOf x y))"
      unfolding level2_entry [OF cf] by blast
    note sp = strictPair_props [OF strictPair_pairOf [OF xy]]
    have "1 \<le> length (pairOf x y)" "length (pairOf x y) \<le> 3" using sp(3) by simp_all
    from mkItemset_correct [OF sp(1,2) this ge refl] show ?thesis
      unfolding fe by blast
  next
    case three
    from level3_entry [OF cf three] obtain a b b' where
      o: "a < b" "a < b'" "b \<noteq> b'"
      and ge: "jge (Fin (of_nat (basketCount ts (a # pairOf b b')))) ?msc"
      and fe: "f = mkItemset ts (a # pairOf b b') (basketCount ts (a # pairOf b b'))" by blast
    note tp = triple_props [OF o]
    have "1 \<le> length (a # pairOf b b')" "length (a # pairOf b b') \<le> 3"
      using tp(3) by simp_all
    from mkItemset_correct [OF tp(1,2) this ge refl] show ?thesis
      unfolding fe by blast
  qed
qed

theorem apriori_itemsets_correct_witness:
  "commaFree [[''b'', ''a'']]
   \<and> \<lparr>itemset = [''a'', ''b''], support = Fin 1, count' = 1\<rparr>
       \<in> set (aprioriAlgorithm [[''b'', ''a'']] (1 / 2))
   \<and> sorted [''a'', ''b''] \<and> distinct [''a'', ''b'']
   \<and> Fin 1 = jdiv (Fin (of_int 1)) (Fin (of_nat (length [[''b'', ''a'']])))
   \<and> jge (Fin (of_int 1)) (minSupportCount (1 / 2) [[''b'', ''a'']])
   \<and> (1 :: int) = int (basketCount [[''b'', ''a'']] [''a'', ''b''])"
proof -
  let ?f = "\<lparr>itemset = [''a'', ''b''], support = Fin 1, count' = 1\<rparr>"
  let ?ts = "[[''b'', ''a'']]"
  have cf: "commaFree ?ts" by (simp add: commaFree_def)
  have mem: "?f \<in> set (aprioriAlgorithm ?ts (1 / 2))" by code_simp
  have d: "\<forall>t \<in> set ?ts. distinct t" by simp
  note th = apriori_itemsets_correct [OF cf mem]
  have "sorted [''a'', ''b'']" "distinct [''a'', ''b'']"
    "Fin 1 = jdiv (Fin (of_int 1)) (Fin (of_nat (length ?ts)))"
    "jge (Fin (of_int 1)) (minSupportCount (1 / 2) ?ts)"
    "(1 :: int) = int (basketCount ?ts [''a'', ''b''])"
    using th d by (simp_all only: FrequentItemset.select_convs simp_thms)
  with cf mem show ?thesis by (intro conjI)
qed

section \<open>The two miners agree up to size 2\<close>

lemma basketCount_pairOf: "basketCount ts (pairOf x y) = basketCount ts [x, y]"
  by (rule basketCount_cong) (simp only: pairOf_props(3), simp)

lemma filter_map_comp: "filter Q (map h xs) = map h (filter (\<lambda>x. Q (h x)) xs)"
  by (induction xs) auto

lemma fpPairs_as_candidates:
  "fpPairs ts msc xs
     = map (\<lambda>c. mkItemset ts c (basketCount ts c))
         (filter (\<lambda>c. jge (Fin (of_nat (basketCount ts c))) msc)
            (generateCandidates (map (\<lambda>x. [x]) xs) 2))"
proof (induction xs)
  case Nil
  then show ?case by simp
next
  case (Cons x xs)
  have "concat (map (\<lambda>y. if jge (Fin (of_nat (basketCount ts [x, y]))) msc
                        then [mkItemset ts (sort [x, y]) (basketCount ts [x, y])]
                        else []) xs)
        = map (\<lambda>y. mkItemset ts (pairOf x y) (basketCount ts (pairOf x y)))
            (filter (\<lambda>y. jge (Fin (of_nat (basketCount ts (pairOf x y)))) msc) xs)"
    unfolding basketCount_pairOf pairOf_def [symmetric] by (rule concat_map_if)
  also have "\<dots> = map (\<lambda>c. mkItemset ts c (basketCount ts c))
                     (filter (\<lambda>c. jge (Fin (of_nat (basketCount ts c))) msc) (map (pairOf x) xs))"
    by (simp only: filter_map_comp map_map comp_def)
  finally show ?case
    by (simp only: fpPairs.simps Cons.IH gc_singletons_Cons filter_append map_append)
qed

lemma mset_candidates2_perm:
  assumes "distinct xs" "distinct ys" "set xs = set ys"
  shows "mset (generateCandidates (map (\<lambda>x. [x]) xs) 2)
       = mset (generateCandidates (map (\<lambda>x. [x]) ys) 2)"
proof -
  have "set (generateCandidates (map (\<lambda>x. [x]) xs) 2)
      = set (generateCandidates (map (\<lambda>x. [x]) ys) 2)"
    using gc_singletons_mem [OF assms(1)] gc_singletons_mem [OF assms(2)] assms(3)
    by (intro set_eqI) simp
  then show ?thesis
    using gc_singletons_distinct [OF assms(1)] gc_singletons_distinct [OF assms(2)]
    by (simp only: set_eq_iff_mset_eq_distinct)
qed

lemma sortedItems_keys:
  "distinct (map fst (sortedItems ts (minSupportCount ms ts)))"
  "set (map fst (sortedItems ts (minSupportCount ms ts))) = set (frequentItems ts ms)"
proof -
  show "distinct (map fst (sortedItems ts (minSupportCount ms ts)))"
    by (rule distinct_keys_sortedItems)
  have "set (sortedItems ts (minSupportCount ms ts))
      = set (filter (\<lambda>(item, c). jge (Fin (of_nat c)) (minSupportCount ms ts)) (itemCounts ts))"
    by (auto simp: sortedItems_def)
  then show "set (map fst (sortedItems ts (minSupportCount ms ts))) = set (frequentItems ts ms)"
    unfolding frequentItems_def by (simp only: set_map)
qed

lemma mset_singles:
  "mset (map (\<lambda>(item, c). mkItemset ts [item] c) (sortedItems ts (minSupportCount ms ts)))
     = mset (level1 ts ms)"
  by (simp add: level1_def frequent1_def sortedItems_def)

lemma distinct_level2: "distinct (level2 ts ms)"
proof -
  have "distinct (map itemset (level2 ts ms))"
    unfolding level2_def by (rule distinct_kFrequent_itemsets)
  then show ?thesis by (simp only: distinct_map)
qed

lemma mset_level2:
  assumes cf: "commaFree ts" and pos: "\<not> jge (Fin 0) (minSupportCount ms ts)"
  shows "mset (level2 ts ms)
       = mset (map (\<lambda>c. mkItemset ts c (basketCount ts c))
                 (filter (\<lambda>c. jge (Fin (of_nat (basketCount ts c))) (minSupportCount ms ts))
                    (generateCandidates (map (\<lambda>x. [x]) (frequentItems ts ms)) 2)))"
    (is "_ = mset (map ?g (filter ?Q ?C))")
proof -
  have dC: "distinct ?C" by (rule gc_singletons_distinct [OF distinct_frequentItems])
  have inj: "inj_on ?g A" for A
    by (rule inj_onI) (metis mkItemset_fields(1))
  have dR: "distinct (map ?g (filter ?Q ?C))"
    using dC inj by (simp only: distinct_map distinct_filter simp_thms)
  have "set (level2 ts ms) = set (map ?g (filter ?Q ?C))"
  proof (intro set_eqI iffI)
    fix f assume "f \<in> set (level2 ts ms)"
    then obtain x y where xy: "x \<in> set (frequentItems ts ms)" "y \<in> set (frequentItems ts ms)"
      "x \<noteq> y" and q: "?Q (pairOf x y)" and fe: "f = ?g (pairOf x y)"
      unfolding level2_entry [OF cf] by blast
    from xy have "pairOf x y \<in> set ?C"
      unfolding gc_singletons_mem [OF distinct_frequentItems] by blast
    with q fe show "f \<in> set (map ?g (filter ?Q ?C))" by simp
  next
    fix f assume "f \<in> set (map ?g (filter ?Q ?C))"
    then obtain c where c: "c \<in> set ?C" "?Q c" "f = ?g c" by auto
    from c(1) obtain x y where xy: "x \<in> set (frequentItems ts ms)"
      "y \<in> set (frequentItems ts ms)" "x \<noteq> y" "c = pairOf x y"
      unfolding gc_singletons_mem [OF distinct_frequentItems] by blast
    from c(2) pos have "0 < basketCount ts c" by (cases "basketCount ts c = 0") auto
    with c xy show "f \<in> set (level2 ts ms)"
      unfolding level2_entry [OF cf] by blast
  qed
  then show ?thesis
    using distinct_level2 dR by (simp only: set_eq_iff_mset_eq_distinct)
qed

lemma mset_fp_pairs:
  assumes cf: "commaFree ts" and pos: "\<not> jge (Fin 0) (minSupportCount ms ts)"
  shows "mset (fpPairs ts (minSupportCount ms ts)
                 (map fst (sortedItems ts (minSupportCount ms ts))))
       = mset (level2 ts ms)"
proof -
  have "mset (generateCandidates
                (map (\<lambda>x. [x]) (map fst (sortedItems ts (minSupportCount ms ts)))) 2)
      = mset (generateCandidates (map (\<lambda>x. [x]) (frequentItems ts ms)) 2)"
    by (rule mset_candidates2_perm [OF sortedItems_keys(1) distinct_frequentItems
          sortedItems_keys(2)])
  then show ?thesis
    unfolding fpPairs_as_candidates mset_level2 [OF cf pos]
    by (simp only: mset_map mset_filter)
qed

text \<open>
  A minimum support that is a double above zero gives a threshold above zero: the
  product with the number of baskets is not rounded below the minimum support itself.
\<close>

lemma minSupportCount_pos:
  assumes "0 < ms" and "roundToDouble ms = ms" and "ts \<noteq> []"
  shows "\<not> jge (Fin 0) (minSupportCount ms ts)"
proof -
  have "(1 :: rat) \<le> of_nat (length ts)" using assms(3) by (cases ts) simp_all
  then have "ms * 1 \<le> ms * of_nat (length ts)"
    using assms(1) by (intro mult_left_mono) simp_all
  then have "ms \<le> ms * of_nat (length ts)" by simp
  from toNumber_above [OF assms(1,2) this] show ?thesis
  proof
    assume "toNumber (ms * of_nat (length ts)) = PInf"
    then show ?thesis by (simp add: minSupportCount_def)
  next
    assume "\<exists>r. toNumber (ms * of_nat (length ts)) = Fin r \<and> ms \<le> r"
    then obtain r where r: "toNumber (ms * of_nat (length ts)) = Fin r" "ms \<le> r" by blast
    then have "0 < r" using assms(1) by linarith
    then have "0 < \<lceil>r\<rceil>" by (simp only: zero_less_ceiling)
    then show ?thesis by (simp add: minSupportCount_def r(1))
  qed
qed

lemma filter_all: "\<forall>x \<in> set xs. P x \<Longrightarrow> filter P xs = xs"
  by (induction xs) auto

lemma filter_none: "\<forall>x \<in> set xs. \<not> P x \<Longrightarrow> filter P xs = []"
  by (induction xs) auto

lemma level_sizes:
  assumes cf: "commaFree ts"
  shows "\<forall>f \<in> set (level1 ts ms). length (itemset f) \<le> 2"
    and "\<forall>f \<in> set (level2 ts ms). length (itemset f) \<le> 2"
    and "\<forall>f \<in> set (level3 ts ms). \<not> length (itemset f) \<le> 2"
proof -
  show "\<forall>f \<in> set (level1 ts ms). length (itemset f) \<le> 2"
  proof
    fix f assume "f \<in> set (level1 ts ms)"
    then obtain item c where "f = mkItemset ts [item] c"
      unfolding level1_entry by blast
    then show "length (itemset f) \<le> 2" by (simp add: mkItemset_fields)
  qed
  show "\<forall>f \<in> set (level2 ts ms). length (itemset f) \<le> 2"
    using level2_strictPairs [OF cf] strictPair_props(3) by fastforce
  show "\<forall>f \<in> set (level3 ts ms). \<not> length (itemset f) \<le> 2"
  proof
    fix f assume "f \<in> set (level3 ts ms)"
    from level3_entry [OF cf this] obtain a b b' where
      o: "a < b" "a < b'" "b \<noteq> b'" and
      f: "f = mkItemset ts (a # pairOf b b') (basketCount ts (a # pairOf b b'))" by blast
    have "itemset f = a # pairOf b b'" unfolding f by (rule mkItemset_fields(1))
    then show "\<not> length (itemset f) \<le> 2" using triple_props(3) [OF o] by simp
  qed
qed

text \<open>
  When no item identifier contains a comma and the minimum support is a double above
  zero, the itemsets the frequency-ordered miner returns are, up to order, the itemsets
  of size at most 2 the Apriori miner returns, with the same supports and counts.
\<close>

theorem miners_agree_up_to_size_two:
  assumes cf: "commaFree ts" and ms: "0 < ms" and dbl: "roundToDouble ms = ms"
  shows "mset (fpGrowthAlgorithm ts ms)
       = mset (filter (\<lambda>f. length (itemset f) \<le> 2) (aprioriAlgorithm ts ms))"
proof (cases "ts = []")
  case True
  have "aprioriAlgorithm [] ms = []"
    by (simp add: aprioriAlgorithm_def frequent1_def itemCounts_def Let_def
        aprioriLoop_no_candidates)
  moreover have "fpGrowthAlgorithm [] ms = []"
    by (simp add: fpGrowthAlgorithm_def sortedItems_def itemCounts_def Let_def)
  ultimately show ?thesis unfolding True by simp
next
  case False
  note pos = minSupportCount_pos [OF ms dbl False]
  have a: "filter (\<lambda>f. length (itemset f) \<le> 2) (aprioriAlgorithm ts ms)
           = level1 ts ms @ level2 ts ms"
    unfolding apriori_levels_plain [OF cf] filter_append
      filter_all [OF level_sizes(1) [OF cf]] filter_all [OF level_sizes(2) [OF cf]]
      filter_none [OF level_sizes(3) [OF cf]]
    by simp
  have "mset (fpGrowthAlgorithm ts ms) = mset (level1 ts ms) + mset (level2 ts ms)"
    unfolding fpGrowthAlgorithm_def Let_def mset_append mset_singles mset_fp_pairs [OF cf pos] ..
  then show ?thesis unfolding a by simp
qed

theorem miners_agree_up_to_size_two_witness:
  "commaFree [[''b'', ''a''], [''a'']] \<and> roundToDouble (1 / 2) = 1 / 2
   \<and> mset (fpGrowthAlgorithm [[''b'', ''a''], [''a'']] (1 / 2))
     = mset (filter (\<lambda>f. length (itemset f) \<le> 2)
               (aprioriAlgorithm [[''b'', ''a''], [''a'']] (1 / 2)))"
proof -
  have cf: "commaFree [[''b'', ''a''], [''a'']]" by (simp add: commaFree_def)
  have ms: "(0 :: rat) < 1 / 2" by simp
  have dbl: "roundToDouble (1 / 2) = 1 / 2" by code_simp
  from miners_agree_up_to_size_two [OF cf ms dbl] cf dbl show ?thesis by (intro conjI)
qed

section \<open>The extracted baskets\<close>

lemma setToArray_step_distinct:
  "distinct acc \<Longrightarrow> distinct (foldl (\<lambda>acc x. if x \<in> set acc then acc else acc @ [x]) acc xs)"
  by (induction xs arbitrary: acc) auto

lemma setToArray_step_set:
  "set (foldl (\<lambda>acc x. if x \<in> set acc then acc else acc @ [x]) acc xs) = set acc \<union> set xs"
  by (induction xs arbitrary: acc) auto

lemma distinct_setToArray: "distinct (setToArray xs)"
  by (simp add: setToArray_def setToArray_step_distinct)

lemma set_setToArray: "set (setToArray xs) = set xs"
  by (simp add: setToArray_def setToArray_step_set)

lemma keys_pushItems:
  "map fst (pushItems tid xs m)
     = (if tid \<in> fst ` set m then map fst m else map fst m @ [tid])"
  by (induction tid xs m rule: pushItems.induct) auto

lemma distinct_keys_pushItems:
  "distinct (map fst m) \<Longrightarrow> distinct (map fst (pushItems tid xs m))"
  by (simp add: keys_pushItems)

lemma distinct_keys_grouped:
  "distinct (map fst m) \<Longrightarrow>
   distinct (map fst (foldl (\<lambda>m r. pushItems (row_transaction_id r)
                         (replicate (nat (row_quantity r)) (row_item_name r)) m) m results))"
  by (induction results arbitrary: m) (simp_all add: distinct_keys_pushItems)

text \<open>
  The baskets \<^verbatim>\<open>getTransactionData\<close> extracts are sets: no basket lists an
  item twice, and no transaction appears twice.
\<close>

theorem getTransactionData_baskets_are_sets:
  "list_all distinct (map snd (getTransactionData results))
   \<and> distinct (map fst (getTransactionData results))"
proof
  show "list_all distinct (map snd (getTransactionData results))"
    by (simp add: getTransactionData_def list_all_iff case_prod_beta distinct_setToArray)
  have "map fst (getTransactionData results)
        = map fst (foldl (\<lambda>m r. pushItems (row_transaction_id r)
                         (replicate (nat (row_quantity r)) (row_item_name r)) m) [] results)"
    by (simp add: getTransactionData_def case_prod_beta comp_def)
  then show "distinct (map fst (getTransactionData results))"
    using distinct_keys_grouped [of "[]" results] by simp
qed

lemma getTransactionData_example:
  "getTransactionData
     [\<lparr>row_transaction_id = 1, row_item_name = ''Bread'', row_quantity = 2\<rparr>,
      \<lparr>row_transaction_id = 2, row_item_name = ''Milk'', row_quantity = 1\<rparr>,
      \<lparr>row_transaction_id = 1, row_item_name = ''Milk'', row_quantity = 1\<rparr>]
   = [(1, [''Bread'', ''Milk'']), (2, [''Milk''])]"
  by code_simp

end
